theory Spec2Isabelle
  imports Complex_Main "HOL-Library.AList"
begin

section \<open>Data model\<close>

text \<open>
  Node identifiers are Python strings. The NetworkX graph object keeps an
  insertion-ordered dictionary from every node to the insertion-ordered
  dictionary of its neighbours; the order decides which of several shortest
  paths a search reports, so the adjacency structure is an association list
  of neighbour lists.
\<close>

type_synonym node = string

type_synonym graph = "(node \<times> node list) list"

datatype error = NodeNotFound | NetworkXNoPath | KeyError | IndexError | ZeroDivisionError

record movie_graph =
  movie_titles :: "node set"
  actor_names :: "node set"
  G :: graph

section \<open>The graph container\<close>

text \<open>
  Modelled from the spec: the class \<open>nx.Graph\<close> with its method
  \<open>add_edge\<close> is library code that is not part of \<open>src/\<close>. The spec asks for an
  undirected simple graph whose edge insertion is idempotent. The definitions
  follow the dictionary-of-dictionaries layout of the library: \<open>add_edge u v\<close>
  creates the missing endpoints (in the order \<open>u\<close>, \<open>v\<close>) and then enters
  \<open>v\<close> among the neighbours of \<open>u\<close> and \<open>u\<close> among those of \<open>v\<close>; a key
  that is already present keeps its position.
\<close>

definition has_node :: "graph \<Rightarrow> node \<Rightarrow> bool" where
  "has_node gr n = (n \<in> set (map fst gr))"

text \<open>
  Modelled from the spec: \<open>G.adj[v]\<close> of the library graph. \<open>adj gr v\<close> is
  the order in which the neighbours of \<open>v\<close> are iterated. The searches
  below only look up nodes that are in the graph; for any other key the library
  would raise, here the list is empty.
\<close>

definition adj :: "graph \<Rightarrow> node \<Rightarrow> node list" where
  "adj gr v = (case map_of gr v of None \<Rightarrow> [] | Some ws \<Rightarrow> ws)"

text \<open>
  Modelled from the spec: the part of the library's \<open>add_edge\<close> that creates a
  missing endpoint, with no neighbours yet, behind the nodes already there.
\<close>

definition add_node :: "graph \<Rightarrow> node \<Rightarrow> graph" where
  "add_node gr n = (if has_node gr n then gr else gr @ [(n, [])])"

text \<open>
  Modelled from the spec: the assignment \<open>adj[u][v] = ...\<close> of the library's
  \<open>add_edge\<close>: a new neighbour goes behind the others, one that is already
  there keeps its place.
\<close>

definition add_nbr :: "graph \<Rightarrow> node \<Rightarrow> node \<Rightarrow> graph" where
  "add_nbr gr u v =
     map (\<lambda>(k, ws). if k = u then (k, if v \<in> set ws then ws else ws @ [v]) else (k, ws)) gr"

text \<open>
  Modelled from the spec: \<open>Graph.add_edge(u, v)\<close> of the library, which
  creates \<open>u\<close>, then \<open>v\<close>, and enters each among the neighbours of the other.
\<close>

definition add_edge :: "graph \<Rightarrow> node \<Rightarrow> node \<Rightarrow> graph" where
  "add_edge gr u v = add_nbr (add_nbr (add_node (add_node gr u) v) u v) v u"

section \<open>Reading the dataset\<close>

text \<open>
  \<open>line.strip().split('/')\<close>: \<open>strip\<close> removes the white space at both ends,
  \<open>split\<close> cuts at every separator and always returns at least one piece.
  Characters are the 256 values of \<open>char\<close>; the white space among them is
  what Python's \<open>str.isspace\<close> accepts below code point 256.
\<close>

definition isspace :: "char \<Rightarrow> bool" where
  "isspace c = (let n = (of_char c :: nat) in
                  (9 \<le> n \<and> n \<le> 13) \<or> (28 \<le> n \<and> n \<le> 32) \<or> n = 133 \<or> n = 160)"

definition strip :: "string \<Rightarrow> string" where
  "strip s = rev (dropWhile isspace (rev (dropWhile isspace s)))"

fun split :: "char \<Rightarrow> string \<Rightarrow> string list" where
  "split sep [] = [[]]"
| "split sep (c # cs) =
     (if c = sep then [] # split sep cs
      else (case split sep cs of p # ps \<Rightarrow> (c # p) # ps | [] \<Rightarrow> [[c]]))"

text \<open>
  One pass of the outer loop of \<open>MovieGraph.__init__\<close>: the first piece is
  popped off as the title and added to the movie set; every remaining piece is
  added to the actor set and joined to the title by an edge. \<open>pop(0)\<close> would
  raise on an empty list, but \<open>split\<close> never returns one (lemma
  \<open>split_nonempty\<close> below), so that branch of \<open>add_line\<close> is never taken.
\<close>

definition add_cast :: "node \<Rightarrow> node \<Rightarrow> movie_graph \<Rightarrow> movie_graph" where
  "add_cast title i mg =
     mg\<lparr>actor_names := insert i (actor_names mg), G := add_edge (G mg) title i\<rparr>"

definition add_line :: "movie_graph \<Rightarrow> string \<Rightarrow> movie_graph" where
  "add_line mg line =
     (case split (CHR ''/'') (strip line) of
        [] \<Rightarrow> mg
      | title # movie_list \<Rightarrow>
          fold (add_cast title) movie_list (mg\<lparr>movie_titles := insert title (movie_titles mg)\<rparr>))"

definition empty_graph :: movie_graph where
  "empty_graph = \<lparr>movie_titles = {}, actor_names = {}, G = []\<rparr>"

text \<open>\<open>init lines\<close> is the object built from a file whose \<open>readlines()\<close> are \<open>lines\<close>.\<close>

definition init :: "string list \<Rightarrow> movie_graph" where
  "init lines = foldl add_line empty_graph lines"

section \<open>Shortest path between two nodes\<close>

text \<open>
  Modelled from the spec: \<open>nx.shortest_path\<close> is library code that is not part
  of \<open>src/\<close>. The spec asks for an unweighted breadth-first search that returns
  some shortest path, fails with a node-not-found error when an endpoint is
  absent and with a no-path error when the endpoints are not connected. The
  definitions follow the library's search for an unweighted query with both
  endpoints given: it grows one breadth-first tree from the source (parents in
  \<open>pred\<close>) and one from the target (parents in \<open>succ\<close>), always expanding a
  whole level of the smaller fringe, and stops at the first node that both
  trees have reached.
\<close>

type_synonym parents = "node \<rightharpoonup> node option"

text \<open>
  Modelled from the spec: the inner loop of the library's search over the
  neighbours \<open>w\<close> of a fringe node \<open>v\<close>: an unseen
  \<open>w\<close> joins the new fringe with parent \<open>v\<close>; a \<open>w\<close> known to the other
  search ends the search (\<open>Inl\<close>). The same loop serves both directions.
\<close>

fun scan_nbrs :: "parents \<Rightarrow> parents \<Rightarrow> node \<Rightarrow> node list \<Rightarrow> node list
                   \<Rightarrow> (parents \<times> node) + (parents \<times> node list)" where
  "scan_nbrs mine other v [] fringe = Inr (mine, fringe)"
| "scan_nbrs mine other v (w # ws) fringe =
     (let (mine', fringe') =
            (if mine w = None then (mine(w \<mapsto> Some v), fringe @ [w]) else (mine, fringe))
      in if other w \<noteq> None then Inl (mine', w)
         else scan_nbrs mine' other v ws fringe')"

text \<open>
  Modelled from the spec: the loop of the library's search over the nodes of
  one level, \<open>for v in this_level\<close>; the new fringe starts empty.
\<close>

fun scan_level :: "graph \<Rightarrow> parents \<Rightarrow> parents \<Rightarrow> node list \<Rightarrow> node list
                    \<Rightarrow> (parents \<times> node) + (parents \<times> node list)" where
  "scan_level gr mine other [] fringe = Inr (mine, fringe)"
| "scan_level gr mine other (v # vs) fringe =
     (case scan_nbrs mine other v (adj gr v) fringe of
        Inl found \<Rightarrow> Inl found
      | Inr (mine', fringe') \<Rightarrow> scan_level gr mine' other vs fringe')"

text \<open>All nodes that occur as a neighbour of some node.\<close>

definition nbr_nodes :: "graph \<Rightarrow> node set" where
  "nbr_nodes gr = (\<Union>(k, ws) \<in> set gr. set ws)"

definition unseen :: "graph \<Rightarrow> parents \<Rightarrow> nat" where
  "unseen gr m = card (nbr_nodes gr - dom m)"

text \<open>
  Modelled from the spec: the main loop of the library's search, \<open>while
  forward_fringe and reverse_fringe\<close>. The forward side is expanded when its
  fringe is not the longer one. When a fringe runs empty the search raises
  \<open>NetworkXNoPath\<close>.
\<close>

function bidir_loop :: "graph \<Rightarrow> parents \<Rightarrow> parents \<Rightarrow> node list \<Rightarrow> node list
                         \<Rightarrow> error + (parents \<times> parents \<times> node)" where
  "bidir_loop gr pred succ forward_fringe reverse_fringe =
     (if forward_fringe = [] \<or> reverse_fringe = [] then Inl NetworkXNoPath
      else if length forward_fringe \<le> length reverse_fringe then
        (case scan_level gr pred succ forward_fringe [] of
           Inl (pred', w) \<Rightarrow> Inr (pred', succ, w)
         | Inr (pred', fringe') \<Rightarrow> bidir_loop gr pred' succ fringe' reverse_fringe)
      else
        (case scan_level gr succ pred reverse_fringe [] of
           Inl (succ', w) \<Rightarrow> Inr (pred, succ', w)
         | Inr (succ', fringe') \<Rightarrow> bidir_loop gr pred succ' forward_fringe fringe'))"
  by pat_completeness auto

text \<open>What a pass over a neighbour list, and over a level, does when it runs to its end.\<close>

lemma scan_nbrs_Inr:
  "scan_nbrs mine other v ws fr = Inr (m', fr') \<Longrightarrow>
     m' = (\<lambda>x. if mine x = None \<and> x \<in> set ws then Some (Some v) else mine x)
   \<and> set fr' = set fr \<union> {x \<in> set ws. mine x = None}
   \<and> (\<forall>x \<in> set ws. other x = None)"
proof (induction ws arbitrary: mine fr)
  case Nil
  then show ?case by auto
next
  case (Cons w ws)
  show ?case
  proof (cases "mine w = None")
    case True
    with Cons.prems have o: "other w = None"
      and r: "scan_nbrs (mine(w \<mapsto> Some v)) other v ws (fr @ [w]) = Inr (m', fr')"
      by (auto split: if_splits)
    from Cons.IH[OF r] True o show ?thesis by (auto simp: fun_eq_iff)
  next
    case False
    with Cons.prems have o: "other w = None"
      and r: "scan_nbrs mine other v ws fr = Inr (m', fr')"
      by (auto split: if_splits)
    from Cons.IH[OF r] False o show ?thesis by (auto simp: fun_eq_iff)
  qed
qed

text \<open>The nodes adjacent to some node of a level.\<close>

definition nbrs_of :: "graph \<Rightarrow> node list \<Rightarrow> node set" where
  "nbrs_of gr vs = (\<Union>v \<in> set vs. set (adj gr v))"

lemma nbrs_of_simps [simp]:
  "nbrs_of gr [] = {}"
  "nbrs_of gr (v # vs) = set (adj gr v) \<union> nbrs_of gr vs"
  by (auto simp: nbrs_of_def)

lemma scan_level_Inr:
  "scan_level gr mine other vs fr = Inr (m', fr') \<Longrightarrow>
     (\<forall>x. mine x \<noteq> None \<longrightarrow> m' x = mine x)
   \<and> (\<forall>x. mine x = None \<longrightarrow> x \<notin> nbrs_of gr vs \<longrightarrow> m' x = None)
   \<and> (\<forall>x. mine x = None \<longrightarrow> x \<in> nbrs_of gr vs \<longrightarrow>
          (\<exists>v \<in> set vs. x \<in> set (adj gr v) \<and> m' x = Some (Some v)))
   \<and> set fr' = set fr \<union> {x \<in> nbrs_of gr vs. mine x = None}
   \<and> (\<forall>x \<in> nbrs_of gr vs. other x = None)"
proof (induction vs arbitrary: mine fr)
  case Nil
  then show ?case by auto
next
  case (Cons v vs)
  from Cons.prems obtain m1 f1 where
    a: "scan_nbrs mine other v (adj gr v) fr = Inr (m1, f1)"
    and r: "scan_level gr m1 other vs f1 = Inr (m', fr')"
    by (auto split: sum.splits)
  note A = scan_nbrs_Inr[OF a]
  note R = Cons.IH[OF r]
  from A have m1: "\<And>x. m1 x = (if mine x = None \<and> x \<in> set (adj gr v) then Some (Some v) else mine x)"
    by simp
  show ?case
  proof (intro conjI allI impI ballI)
    fix x assume "mine x \<noteq> None"
    then show "m' x = mine x" using R m1 by auto
  next
    fix x assume "mine x = None" "x \<notin> nbrs_of gr (v # vs)"
    then show "m' x = None" using R m1 by auto
  next
    fix x assume h: "mine x = None" "x \<in> nbrs_of gr (v # vs)"
    show "\<exists>u \<in> set (v # vs). x \<in> set (adj gr u) \<and> m' x = Some (Some u)"
    proof (cases "x \<in> set (adj gr v)")
      case True
      then have "m1 x = Some (Some v)" using h m1 by simp
      then have "m' x = Some (Some v)" using R by auto
      then show ?thesis using True by auto
    next
      case False
      then have "m1 x = None" "x \<in> nbrs_of gr vs" using h m1 by auto
      then show ?thesis using R by auto
    qed
  next
    show "set fr' = set fr \<union> {x \<in> nbrs_of gr (v # vs). mine x = None}"
      using R A by (auto simp: m1 split: if_splits)
  next
    fix x assume "x \<in> nbrs_of gr (v # vs)"
    then show "other x = None" using R A by auto
  qed
qed

lemma finite_nbr_nodes: "finite (nbr_nodes gr)"
  by (auto simp: nbr_nodes_def)

lemma adj_nbr_nodes: "set (adj gr v) \<subseteq> nbr_nodes gr"
proof
  fix x assume "x \<in> set (adj gr v)"
  then obtain ws where "map_of gr v = Some ws" "x \<in> set ws"
    by (cases "map_of gr v") (auto simp: adj_def)
  then have "(v, ws) \<in> set gr" "x \<in> set ws" by (auto dest: map_of_SomeD)
  then show "x \<in> nbr_nodes gr" unfolding nbr_nodes_def by blast
qed

lemma nbrs_of_nbr_nodes: "nbrs_of gr vs \<subseteq> nbr_nodes gr"
  using adj_nbr_nodes by (auto simp: nbrs_of_def)

lemma scan_level_unseen:
  assumes "scan_level gr mine other vs [] = Inr (m', fr')"
  shows "(fr' = [] \<longrightarrow> m' = mine) \<and> (fr' \<noteq> [] \<longrightarrow> unseen gr m' < unseen gr mine)"
proof -
  note S = scan_level_Inr[OF assms]
  from S have keep: "\<And>x. mine x \<noteq> None \<Longrightarrow> m' x = mine x" by blast
  from S have out: "\<And>x. mine x = None \<Longrightarrow> x \<notin> nbrs_of gr vs \<Longrightarrow> m' x = None" by blast
  from S have new0: "\<forall>x. mine x = None \<longrightarrow> x \<in> nbrs_of gr vs \<longrightarrow>
          (\<exists>v \<in> set vs. x \<in> set (adj gr v) \<and> m' x = Some (Some v))" by blast
  have new: "m' x \<noteq> None" if "mine x = None" "x \<in> nbrs_of gr vs" for x
  proof -
    from new0 that obtain v where "m' x = Some (Some v)" by blast
    then show ?thesis by simp
  qed
  from S have fr: "set fr' = {x \<in> nbrs_of gr vs. mine x = None}" by simp
  have dom: "dom mine \<subseteq> dom m'" using keep by (auto simp: dom_def)
  show ?thesis
  proof (intro conjI impI)
    assume "fr' = []"
    then have e: "\<And>x. x \<in> nbrs_of gr vs \<Longrightarrow> mine x \<noteq> None" using fr by auto
    show "m' = mine"
    proof
      fix x show "m' x = mine x"
      proof (cases "mine x = None")
        case True
        then have "x \<notin> nbrs_of gr vs" using e by blast
        then show ?thesis using out True by simp
      next
        case False
        then show ?thesis by (rule keep)
      qed
    qed
  next
    assume "fr' \<noteq> []"
    then have "set fr' \<noteq> {}" by simp
    then obtain x where x: "x \<in> nbrs_of gr vs" "mine x = None" unfolding fr by blast
    then have "m' x \<noteq> None" by (simp add: new)
    with x have "x \<in> nbr_nodes gr - dom mine" "x \<notin> nbr_nodes gr - dom m'"
      using nbrs_of_nbr_nodes by (auto simp: dom_def)
    moreover have "nbr_nodes gr - dom m' \<subseteq> nbr_nodes gr - dom mine" using dom by auto
    ultimately have "nbr_nodes gr - dom m' \<subset> nbr_nodes gr - dom mine" by blast
    then show "unseen gr m' < unseen gr mine"
      unfolding unseen_def by (intro psubset_card_mono) (auto simp: finite_nbr_nodes)
  qed
qed

text \<open>
  The loop ends: a pass either finds no new node, and then leaves an empty
  fringe, or it lowers the number of nodes a tree has not reached.
\<close>

definition bidir_measure :: "graph \<times> parents \<times> parents \<times> node list \<times> node list \<Rightarrow> nat" where
  "bidir_measure = (\<lambda>(gr, pred, succ, ff, rf).
          2 * (unseen gr pred + unseen gr succ) + (if ff = [] \<or> rf = [] then 0 else 1))"

lemma bidir_measure_forward:
  assumes "ff \<noteq> []" "rf \<noteq> []" "scan_level gr pred succ ff [] = Inr (x, y)"
  shows "bidir_measure (gr, x, succ, y, rf) < bidir_measure (gr, pred, succ, ff, rf)"
proof (cases "y = []")
  case True
  then have "x = pred" using scan_level_unseen[OF assms(3)] by simp
  with True assms show ?thesis by (simp add: bidir_measure_def)
next
  case False
  then have "unseen gr x < unseen gr pred" using scan_level_unseen[OF assms(3)] by simp
  with assms show ?thesis by (simp add: bidir_measure_def)
qed

lemma bidir_measure_reverse:
  assumes "ff \<noteq> []" "rf \<noteq> []" "scan_level gr succ pred rf [] = Inr (x, y)"
  shows "bidir_measure (gr, pred, x, ff, y) < bidir_measure (gr, pred, succ, ff, rf)"
proof (cases "y = []")
  case True
  then have "x = succ" using scan_level_unseen[OF assms(3)] by simp
  with True assms show ?thesis by (simp add: bidir_measure_def)
next
  case False
  then have "unseen gr x < unseen gr succ" using scan_level_unseen[OF assms(3)] by simp
  with assms show ?thesis by (simp add: bidir_measure_def)
qed

termination bidir_loop
proof (relation "measure bidir_measure")
  show "wf (measure bidir_measure)" by simp
next
  fix gr :: graph and pred succ :: parents and ff rf :: "node list" and x2 x y
  assume "\<not> (ff = [] \<or> rf = [])" "scan_level gr pred succ ff [] = Inr x2" "(x, y) = x2"
  then show "((gr, x, succ, y, rf), gr, pred, succ, ff, rf) \<in> measure bidir_measure"
    using bidir_measure_forward[of ff rf gr pred succ x y] by simp
next
  fix gr :: graph and pred succ :: parents and ff rf :: "node list" and x2 x y
  assume "\<not> (ff = [] \<or> rf = [])" "scan_level gr succ pred rf [] = Inr x2" "(x, y) = x2"
  then show "((gr, pred, x, ff, y), gr, pred, succ, ff, rf) \<in> measure bidir_measure"
    using bidir_measure_reverse[of ff rf gr succ pred x y] by simp
qed

text \<open>
  Modelled from the spec: the loops of the library's search that read a path
  off a tree, \<open>while w is not None: path.append(w);
  w = tree[w]\<close>. A key missing from the dictionary raises \<open>KeyError\<close>; on a
  dictionary with a cycle the loop would not end, which is the value \<open>None\<close>.
\<close>

partial_function (option) chase :: "parents \<Rightarrow> node option \<Rightarrow> node list
                                     \<Rightarrow> (error + node list) option" where
  "chase tree w path =
     (case w of
        None \<Rightarrow> Some (Inr path)
      | Some x \<Rightarrow>
          (case tree x of
             None \<Rightarrow> Some (Inl KeyError)
           | Some nxt \<Rightarrow> chase tree nxt (path @ [x])))"

declare chase.simps [code]

text \<open>
  Modelled from the spec: the library's \<open>_bidirectional_pred_succ\<close>. Equal
  endpoints meet at once; otherwise each tree starts with its root, whose
  parent is \<open>None\<close>.
\<close>

definition bidirectional_pred_succ :: "graph \<Rightarrow> node \<Rightarrow> node
                                        \<Rightarrow> error + (parents \<times> parents \<times> node)" where
  "bidirectional_pred_succ gr source target =
     (if target = source then Inr ([target \<mapsto> None], [source \<mapsto> None], source)
      else bidir_loop gr [source \<mapsto> None] [target \<mapsto> None] [source] [target])"

text \<open>
  Modelled from the spec: the end of the library's
  \<open>bidirectional_shortest_path\<close>, where the path is read off the two trees:
  from the meeting node \<open>w\<close> back to the
  source along \<open>pred\<close>, reversed, and then on from \<open>succ[path[-1]]\<close> to the
  target along \<open>succ\<close>.
\<close>

definition build_path :: "parents \<Rightarrow> parents \<Rightarrow> node \<Rightarrow> (error + node list) option" where
  "build_path pred succ w =
     (case chase pred (Some w) [] of
        None \<Rightarrow> None
      | Some (Inl e) \<Rightarrow> Some (Inl e)
      | Some (Inr back) \<Rightarrow>
          (let path = rev back in
           (case path of
              [] \<Rightarrow> Some (Inl IndexError)
            | _ \<Rightarrow>
               (case succ (last path) of
                  None \<Rightarrow> Some (Inl KeyError)
                | Some nxt \<Rightarrow> chase succ nxt path))))"

text \<open>
  Modelled from the spec: the library's \<open>bidirectional_shortest_path\<close>, which
  raises \<open>NodeNotFound\<close> when the source or the target is not in the graph.
\<close>

definition bidirectional_shortest_path :: "graph \<Rightarrow> node \<Rightarrow> node
                                            \<Rightarrow> (error + node list) option" where
  "bidirectional_shortest_path gr source target =
     (if \<not> has_node gr source \<or> \<not> has_node gr target then Some (Inl NodeNotFound)
      else
        (case bidirectional_pred_succ gr source target of
           Inl e \<Rightarrow> Some (Inl e)
         | Inr (pred, succ, w) \<Rightarrow> build_path pred succ w))"

text \<open>
  Modelled from the spec: \<open>nx.shortest_path(G, source, target)\<close>, which for an
  unweighted query with both endpoints is the two-sided search.
\<close>

definition shortest_path :: "graph \<Rightarrow> node \<Rightarrow> node \<Rightarrow> (error + node list) option" where
  "shortest_path gr source target = bidirectional_shortest_path gr source target"

section \<open>The path query\<close>

text \<open>
  \<open>MovieGraph.path_to_actor\<close>: the shortest path as the search returns it, and
  the number of its nodes that are not movie titles, less one.
\<close>

definition path_to_actor :: "movie_graph \<Rightarrow> node \<Rightarrow> node
                              \<Rightarrow> (error + (node list \<times> int)) option" where
  "path_to_actor mg source target =
     (case shortest_path (G mg) source target of
        None \<Rightarrow> None
      | Some (Inl e) \<Rightarrow> Some (Inl e)
      | Some (Inr path) \<Rightarrow>
          (let actor_path = filter (\<lambda>i. i \<notin> movie_titles mg) path
           in Some (Inr (path, int (length actor_path) - 1))))"

section \<open>Distances from one node\<close>

text \<open>
  Modelled from the spec: \<open>nx.shortest_path_length\<close> is library code that is not
  part of \<open>src/\<close>. The spec asks for a single-source breadth-first search that
  gives the shortest-path length from the target to every reachable node and
  fails with a node-not-found error when the target is absent. The definitions
  follow the library's level-by-level search for an unweighted, undirected
  query with only the target given: \<open>seen\<close> is the set of nodes met so far,
  every newly met node \<open>w\<close> is reported as the pair \<open>(w, level)\<close>, and the
  pairs are collected into a dictionary in the order they were reported. The
  library's shortcut that stops as soon as every node of the graph has been
  seen reports the same pairs and is left out.
\<close>

fun visit_nbrs :: "node set \<Rightarrow> node list \<Rightarrow> (node \<times> nat) list \<Rightarrow> nat \<Rightarrow> node list
                    \<Rightarrow> node set \<times> node list \<times> (node \<times> nat) list" where
  "visit_nbrs seen nextlevel out level [] = (seen, nextlevel, out)"
| "visit_nbrs seen nextlevel out level (w # ws) =
     (if w \<notin> seen
      then visit_nbrs (insert w seen) (nextlevel @ [w]) (out @ [(w, level)]) level ws
      else visit_nbrs seen nextlevel out level ws)"

text \<open>
  Modelled from the spec: the loop of the library's single-source search over
  the nodes of one level.
\<close>

fun visit_level :: "graph \<Rightarrow> node set \<Rightarrow> node list \<Rightarrow> (node \<times> nat) list \<Rightarrow> nat \<Rightarrow> node list
                     \<Rightarrow> node set \<times> node list \<times> (node \<times> nat) list" where
  "visit_level gr seen nextlevel out level [] = (seen, nextlevel, out)"
| "visit_level gr seen nextlevel out level (v # vs) =
     (case visit_nbrs seen nextlevel out level (adj gr v) of
        (seen', nextlevel', out') \<Rightarrow> visit_level gr seen' nextlevel' out' level vs)"

text \<open>
  Modelled from the spec: the main loop of the library's single-source search,
  \<open>while nextlevel\<close>, which raises the level and visits the last fringe.
\<close>

function sssp_loop :: "graph \<Rightarrow> node set \<Rightarrow> node list \<Rightarrow> nat \<Rightarrow> (node \<times> nat) list
                        \<Rightarrow> (node \<times> nat) list" where
  "sssp_loop gr seen nextlevel level out =
     (if nextlevel = [] then out
      else
        (case visit_level gr seen [] out (level + 1) nextlevel of
           (seen', nextlevel', out') \<Rightarrow> sssp_loop gr seen' nextlevel' (level + 1) out'))"
  by pat_completeness auto

text \<open>What a pass over a neighbour list, and over a level, adds.\<close>

lemma visit_nbrs_result:
  "visit_nbrs seen nl out l ws = (seen', nl', out') \<Longrightarrow>
     seen' = seen \<union> set ws \<and>
     (\<exists>new. nl' = nl @ new \<and> out' = out @ map (\<lambda>w. (w, l)) new
            \<and> set new = set ws - seen \<and> distinct new)"
proof (induction ws arbitrary: seen nl out)
  case Nil
  then show ?case by simp
next
  case (Cons w ws)
  show ?case
  proof (cases "w \<in> seen")
    case True
    with Cons.prems have "visit_nbrs seen nl out l ws = (seen', nl', out')" by simp
    from Cons.IH[OF this] obtain new where
      "seen' = seen \<union> set ws" "nl' = nl @ new" "out' = out @ map (\<lambda>w. (w, l)) new"
      "set new = set ws - seen" "distinct new" by blast
    with True show ?thesis by auto
  next
    case False
    with Cons.prems have
      "visit_nbrs (insert w seen) (nl @ [w]) (out @ [(w, l)]) l ws = (seen', nl', out')" by simp
    from Cons.IH[OF this] obtain new where n:
      "seen' = insert w seen \<union> set ws" "nl' = (nl @ [w]) @ new"
      "out' = (out @ [(w, l)]) @ map (\<lambda>w. (w, l)) new"
      "set new = set ws - insert w seen" "distinct new" by blast
    have "nl' = nl @ (w # new)" "out' = out @ map (\<lambda>w. (w, l)) (w # new)"
      "set (w # new) = set (w # ws) - seen" "distinct (w # new)"
      using n False by auto
    moreover have "seen' = seen \<union> set (w # ws)" using n by auto
    ultimately show ?thesis by blast
  qed
qed

lemma visit_level_result:
  "visit_level gr seen nl out l vs = (seen', nl', out') \<Longrightarrow>
     seen' = seen \<union> nbrs_of gr vs \<and>
     (\<exists>new. nl' = nl @ new \<and> out' = out @ map (\<lambda>w. (w, l)) new
            \<and> set new = nbrs_of gr vs - seen \<and> distinct new)"
proof (induction vs arbitrary: seen nl out)
  case Nil
  then show ?case by simp
next
  case (Cons v vs)
  from Cons.prems obtain s1 n1 o1 where
    a: "visit_nbrs seen nl out l (adj gr v) = (s1, n1, o1)"
    and r: "visit_level gr s1 n1 o1 l vs = (seen', nl', out')"
    by (auto split: prod.splits)
  from visit_nbrs_result[OF a] obtain new1 where n1:
    "s1 = seen \<union> set (adj gr v)" "n1 = nl @ new1" "o1 = out @ map (\<lambda>w. (w, l)) new1"
    "set new1 = set (adj gr v) - seen" "distinct new1" by blast
  from Cons.IH[OF r] obtain new2 where n2:
    "seen' = s1 \<union> nbrs_of gr vs" "nl' = n1 @ new2" "out' = o1 @ map (\<lambda>w. (w, l)) new2"
    "set new2 = nbrs_of gr vs - s1" "distinct new2" by blast
  have "nl' = nl @ (new1 @ new2)" "out' = out @ map (\<lambda>w. (w, l)) (new1 @ new2)"
    using n1 n2 by auto
  moreover have "set (new1 @ new2) = nbrs_of gr (v # vs) - seen"
    using n1 n2 by auto
  moreover have "distinct (new1 @ new2)" using n1 n2 by auto
  moreover have "seen' = seen \<union> nbrs_of gr (v # vs)" using n1 n2 by auto
  ultimately show ?case by blast
qed

definition sssp_measure :: "graph \<times> node set \<times> node list \<times> nat \<times> (node \<times> nat) list \<Rightarrow> nat" where
  "sssp_measure = (\<lambda>(gr, seen, nextlevel, level, out).
      2 * card (nbr_nodes gr - seen) + (if nextlevel = [] then 0 else 1))"

lemma sssp_measure_step:
  assumes "nextlevel \<noteq> []"
    and "visit_level gr seen [] out l nextlevel = (seen', nextlevel', out')"
  shows "sssp_measure (gr, seen', nextlevel', l, out') < sssp_measure (gr, seen, nextlevel, l', out)"
proof -
  from visit_level_result[OF assms(2)] obtain new where
    s: "seen' = seen \<union> nbrs_of gr nextlevel" and n0: "nextlevel' = [] @ new"
    and n1: "set new = nbrs_of gr nextlevel - seen"
    by blast
  have n: "set nextlevel' = nbrs_of gr nextlevel - seen" using n0 n1 by simp
  show ?thesis
  proof (cases "nextlevel' = []")
    case True
    then have "nbrs_of gr nextlevel \<subseteq> seen" using n by auto
    then have "seen' = seen" unfolding s by blast
    with True assms(1) show ?thesis by (simp add: sssp_measure_def)
  next
    case False
    then have "set nextlevel' \<noteq> {}" by simp
    then have "nbrs_of gr nextlevel - seen \<noteq> {}" unfolding n .
    then obtain x where x: "x \<in> nbrs_of gr nextlevel" "x \<notin> seen" by blast
    have sub: "seen \<subseteq> seen'" using s by blast
    have "x \<in> nbr_nodes gr" using x(1) nbrs_of_nbr_nodes by blast
    moreover have "x \<in> seen'" using x(1) s by blast
    ultimately have "x \<in> nbr_nodes gr - seen" "x \<notin> nbr_nodes gr - seen'"
      using x(2) by blast+
    moreover have "nbr_nodes gr - seen' \<subseteq> nbr_nodes gr - seen" using sub by blast
    ultimately have "nbr_nodes gr - seen' \<subset> nbr_nodes gr - seen" by blast
    then have "card (nbr_nodes gr - seen') < card (nbr_nodes gr - seen)"
      by (intro psubset_card_mono) (auto simp: finite_nbr_nodes)
    with assms(1) show ?thesis by (simp add: sssp_measure_def)
  qed
qed

termination sssp_loop
  apply (relation "measure sssp_measure")
  subgoal by simp
  subgoal for gr seen nextlevel level out x y xa ya
    using sssp_measure_step[of nextlevel gr seen out "level + 1" x xa ya level] by simp
  done

text \<open>
  Modelled from the spec: the library's \<open>_single_shortest_path_length\<close>, which
  first reports the nodes of the first level at length 0.
\<close>

definition single_shortest_path_length :: "graph \<Rightarrow> node list \<Rightarrow> (node \<times> nat) list" where
  "single_shortest_path_length gr firstlevel =
     sssp_loop gr (set firstlevel) firstlevel 0 (map (\<lambda>v. (v, 0)) firstlevel)"

text \<open>
  \<open>dict(pairs)\<close>: a key keeps the position of its first entry and the value of
  its last one.
\<close>

definition dict :: "('k \<times> 'v) list \<Rightarrow> ('k \<times> 'v) list" where
  "dict pairs = foldl (\<lambda>d (k, v). AList.update k v d) [] pairs"

text \<open>
  Modelled from the spec: the library's \<open>single_source_shortest_path_length\<close>,
  which raises \<open>NodeNotFound\<close> when the source is not in the graph.
\<close>

definition single_source_shortest_path_length :: "graph \<Rightarrow> node
                                                   \<Rightarrow> error + (node \<times> nat) list" where
  "single_source_shortest_path_length gr source =
     (if \<not> has_node gr source then Inl NodeNotFound
      else Inr (dict (single_shortest_path_length gr [source])))"

text \<open>
  Modelled from the spec: \<open>nx.shortest_path_length(G, target=target)\<close>, which
  on an undirected graph is the single-source search from the target.
\<close>

definition shortest_path_length :: "graph \<Rightarrow> node \<Rightarrow> error + (node \<times> nat) list" where
  "shortest_path_length gr target = single_source_shortest_path_length gr target"

section \<open>The distance distribution\<close>

text \<open>
  The loop of \<open>MovieGraph.average_number\<close> over the keys of \<open>all_paths\<close>: a
  length of even parity contributes its half to \<open>values\<close>.
\<close>

fun collect_values :: "(node \<times> nat) list \<Rightarrow> node list \<Rightarrow> nat list \<Rightarrow> error + nat list" where
  "collect_values all_paths [] values = Inr values"
| "collect_values all_paths (value # keys) values =
     (case map_of all_paths value of
        None \<Rightarrow> Inl KeyError
      | Some len \<Rightarrow>
          collect_values all_paths keys
            (if len mod 2 = 0 then values @ [len div 2] else values))"

text \<open>
  The bin edges that the source hands to the histogram, \<open>[i-.5 for i in
  range(8)]\<close>.
\<close>

definition bins :: "real list" where
  "bins = map (\<lambda>i. real i - 1 / 2) [0..<8]"

text \<open>
  Modelled from the spec: \<open>ax.hist\<close> is library code that is not part of
  \<open>src/\<close>. The spec asks to bucket the actor-degrees into integer bins. The
  definition follows the library: the count of the values in each interval between two
  neighbouring edges, closed on the left and open on the right except for the
  last interval, which is closed on both sides; a value outside all intervals is
  not counted. The figure is represented by these counts.
\<close>

definition hist :: "real list \<Rightarrow> real list \<Rightarrow> nat list" where
  "hist xs edges =
     map (\<lambda>k. length (filter (\<lambda>x. edges ! k \<le> x \<and>
                                  (x < edges ! Suc k \<or> (Suc k = length edges - 1 \<and> x = edges ! Suc k))) xs))
         [0..<length edges - 1]"

text \<open>
  \<open>MovieGraph.average_number\<close> returns the figure and the quotient
  \<open>sum(values)/len(values)\<close>, which raises \<open>ZeroDivisionError\<close> on an empty
  list. The quotient is taken exactly; the rounding of floating-point division
  is not represented.
\<close>

definition average_number :: "movie_graph \<Rightarrow> node \<Rightarrow> error + (nat list \<times> real)" where
  "average_number mg target =
     (case shortest_path_length (G mg) target of
        Inl e \<Rightarrow> Inl e
      | Inr all_paths \<Rightarrow>
          (case collect_values all_paths (map fst all_paths) [] of
             Inl e \<Rightarrow> Inl e
           | Inr values \<Rightarrow>
               (let fig = hist (map real values) bins in
                if length values = 0 then Inl ZeroDivisionError
                else Inr (fig, real (sum_list values) / real (length values)))))"

section \<open>Notions used in the statements\<close>

text \<open>
  A walk is a non-empty list of nodes in which every node is followed by one
  of its neighbours; its raw hop count is the number of its edges. Two nodes
  are connected when a walk leads from one to the other, and the distance is
  the least number of hops of such a walk.
\<close>

fun walk :: "graph \<Rightarrow> node list \<Rightarrow> bool" where
  "walk gr [] = False"
| "walk gr [v] = True"
| "walk gr (u # v # p) = (v \<in> set (adj gr u) \<and> walk gr (v # p))"

definition hops :: "node list \<Rightarrow> nat" where
  "hops p = length p - 1"

definition reachable :: "graph \<Rightarrow> node \<Rightarrow> node \<Rightarrow> bool" where
  "reachable gr s t = (\<exists>p. walk gr p \<and> hd p = s \<and> last p = t)"

definition distance :: "graph \<Rightarrow> node \<Rightarrow> node \<Rightarrow> nat" where
  "distance gr s v = (LEAST n. \<exists>p. walk gr p \<and> hd p = s \<and> last p = v \<and> hops p = n)"

text \<open>
  What the builder keeps true: the adjacency is symmetric, every edge joins a
  movie title with a cast member, and every cast member is a node.
\<close>

definition undirected :: "graph \<Rightarrow> bool" where
  "undirected gr = (\<forall>u v. v \<in> set (adj gr u) \<longrightarrow> u \<in> set (adj gr v))"

definition built :: "movie_graph \<Rightarrow> bool" where
  "built mg =
     (undirected (G mg) \<and>
      (\<forall>u v. v \<in> set (adj (G mg) u) \<longrightarrow>
         (u \<in> movie_titles mg \<and> v \<in> actor_names mg) \<or>
         (v \<in> movie_titles mg \<and> u \<in> actor_names mg)))"

definition cast_in_graph :: "movie_graph \<Rightarrow> bool" where
  "cast_in_graph mg = (\<forall>a \<in> actor_names mg. has_node (G mg) a)"

text \<open>The list \<open>values\<close> computed from the lengths in the dictionary.\<close>

definition halves :: "nat list \<Rightarrow> nat list" where
  "halves ls = map (\<lambda>l. l div 2) (filter (\<lambda>l. l mod 2 = 0) ls)"

text \<open>
  Both searches visit the graph level by level. \<open>layered gr r V \<delta> F d\<close> says
  that \<open>V\<close> is what a search from \<open>r\<close> has visited after \<open>d\<close> levels, with
  depths \<open>\<delta>\<close> and fringe \<open>F\<close>. \<open>tree_ok\<close> says that a dictionary of parents
  is a tree below the root whose depths are \<open>\<delta>\<close>, and \<open>extends\<close> that a pass
  over a level has only hung new nodes below nodes of that level.
\<close>

definition layered :: "graph \<Rightarrow> node \<Rightarrow> node set \<Rightarrow> (node \<Rightarrow> nat) \<Rightarrow> node set \<Rightarrow> nat \<Rightarrow> bool" where
  "layered gr r V \<delta> F d =
     (r \<in> V \<and> \<delta> r = 0 \<and>
      (\<forall>v \<in> V. \<delta> v \<le> d) \<and>
      F = {v \<in> V. \<delta> v = d} \<and>
      (\<forall>v \<in> V. v \<noteq> r \<longrightarrow> (\<exists>u \<in> V. v \<in> set (adj gr u) \<and> \<delta> v = Suc (\<delta> u))) \<and>
      (\<forall>v \<in> V. \<delta> v < d \<longrightarrow> (\<forall>w \<in> set (adj gr v). w \<in> V \<and> \<delta> w \<le> Suc (\<delta> v))))"

definition tree_ok :: "graph \<Rightarrow> parents \<Rightarrow> node \<Rightarrow> (node \<Rightarrow> nat) \<Rightarrow> bool" where
  "tree_ok gr m r \<delta> =
     (m r = Some None \<and> \<delta> r = 0 \<and>
      (\<forall>v. m v = Some None \<longrightarrow> v = r) \<and>
      (\<forall>v u. m v = Some (Some u) \<longrightarrow> m u \<noteq> None \<and> v \<in> set (adj gr u) \<and> \<delta> v = Suc (\<delta> u)))"

definition extends :: "graph \<Rightarrow> parents \<Rightarrow> parents \<Rightarrow> node list \<Rightarrow> bool" where
  "extends gr m m' vs =
     ((\<forall>x. m x \<noteq> None \<longrightarrow> m' x = m x) \<and>
      (\<forall>x. m x = None \<longrightarrow> m' x \<noteq> None \<longrightarrow>
            (\<exists>v \<in> set vs. x \<in> set (adj gr v) \<and> m' x = Some (Some v))))"

text \<open>
  The invariant of the two-sided search, what it promises about the meeting
  node it returns, and the invariant of the single-source search.
\<close>

definition bidir_inv :: "graph \<Rightarrow> node \<Rightarrow> node \<Rightarrow> parents \<Rightarrow> parents \<Rightarrow> node list \<Rightarrow> node list
                          \<Rightarrow> (node \<Rightarrow> nat) \<Rightarrow> (node \<Rightarrow> nat) \<Rightarrow> nat \<Rightarrow> nat \<Rightarrow> bool" where
  "bidir_inv gr s t pred succ ff rf \<delta>f \<delta>r df dr =
     (layered gr s (dom pred) \<delta>f (set ff) df \<and> tree_ok gr pred s \<delta>f \<and>
      layered gr t (dom succ) \<delta>r (set rf) dr \<and> tree_ok gr succ t \<delta>r \<and>
      dom pred \<inter> dom succ = {})"

definition meet_ok :: "graph \<Rightarrow> node \<Rightarrow> node \<Rightarrow> parents \<Rightarrow> parents \<Rightarrow> node \<Rightarrow> bool" where
  "meet_ok gr s t pred succ w =
     (\<exists>\<delta>f \<delta>r. tree_ok gr pred s \<delta>f \<and> tree_ok gr succ t \<delta>r \<and> pred w \<noteq> None \<and> succ w \<noteq> None \<and>
              (\<forall>q. walk gr q \<longrightarrow> hd q = s \<longrightarrow> last q = t \<longrightarrow> \<delta>f w + \<delta>r w \<le> hops q))"

definition sssp_inv :: "graph \<Rightarrow> node \<Rightarrow> node set \<Rightarrow> node list \<Rightarrow> nat \<Rightarrow> (node \<times> nat) list
                         \<Rightarrow> (node \<Rightarrow> nat) \<Rightarrow> bool" where
  "sssp_inv gr t seen nextlevel level out \<delta> =
     (layered gr t seen \<delta> (set nextlevel) level \<and> distinct (map fst out) \<and>
      set out = (\<lambda>v. (v, \<delta> v)) ` seen)"

section \<open>The pieces of a line\<close>

lemma split_nonempty: "split sep s \<noteq> []"
  by (induction s) (auto split: list.splits)

section \<open>Endpoints that are not in the graph\<close>

text \<open>
  Claim C5. If the source or the target handed to \<open>path_to_actor\<close> is not a
  node of the graph, the query does not return a result: it fails with the
  node-not-found error of the search.
\<close>

theorem path_to_actor_absent_endpoint:
  "\<not> has_node (G mg) source \<or> \<not> has_node (G mg) target
   \<Longrightarrow> path_to_actor mg source target = Some (Inl NodeNotFound)"
  by (simp add: path_to_actor_def shortest_path_def bidirectional_shortest_path_def)

theorem path_to_actor_absent_endpoint_witness:
  "\<not> has_node (G (init [''Movie A/Alice/Bob''])) ''Carol''
   \<and> path_to_actor (init [''Movie A/Alice/Bob'']) ''Alice'' ''Carol'' = Some (Inl NodeNotFound)"
proof -
  have h: "\<not> has_node (G (init [''Movie A/Alice/Bob''])) ''Carol''" by code_simp
  then have "\<not> has_node (G (init [''Movie A/Alice/Bob''])) ''Alice''
      \<or> \<not> has_node (G (init [''Movie A/Alice/Bob''])) ''Carol''" by simp
  from h path_to_actor_absent_endpoint [OF this] show ?thesis by simp
qed

section \<open>A query from a node to itself\<close>

lemma chase_root: "tree a = Some None \<Longrightarrow> chase tree (Some a) path = Some (Inr (path @ [a]))"
  by (simp add: chase.simps)

lemma shortest_path_self:
  "has_node gr a \<Longrightarrow> shortest_path gr a a = Some (Inr [a])"
  by (simp add: shortest_path_def bidirectional_shortest_path_def bidirectional_pred_succ_def
      build_path_def chase.simps)

text \<open>
  Claim C7, as the code has it. For a node \<open>a\<close> of the graph that is not a
  movie title, the query from \<open>a\<close> to \<open>a\<close> returns the path \<open>[a]\<close> and the
  degree 0.
\<close>

theorem path_to_actor_self:
  "has_node (G mg) a \<Longrightarrow> a \<notin> movie_titles mg
   \<Longrightarrow> path_to_actor mg a a = Some (Inr ([a], 0))"
  by (simp add: path_to_actor_def shortest_path_self)

theorem path_to_actor_self_witness:
  "has_node (G (init [''Movie A/Alice/Bob''])) ''Alice''
   \<and> ''Alice'' \<notin> movie_titles (init [''Movie A/Alice/Bob''])
   \<and> path_to_actor (init [''Movie A/Alice/Bob'']) ''Alice'' ''Alice'' = Some (Inr ([''Alice''], 0))"
proof -
  have h1: "has_node (G (init [''Movie A/Alice/Bob''])) ''Alice''" by code_simp
  have h2: "''Alice'' \<notin> movie_titles (init [''Movie A/Alice/Bob''])" by code_simp
  from h1 h2 path_to_actor_self [OF h1 h2] show ?thesis by simp
qed

text \<open>
  The claim as stated fails for a cast member whose name is also a movie
  title: in the dataset \<open>M1/A/M2\<close>, \<open>M2/B\<close> the name \<open>M2\<close> is an actor node
  of the graph, and the query from \<open>M2\<close> to \<open>M2\<close> returns the degree \<open>-1\<close>.
\<close>

theorem path_to_actor_self_counterexample:
  "''M2'' \<in> actor_names (init [''M1/A/M2'', ''M2/B''])
   \<and> has_node (G (init [''M1/A/M2'', ''M2/B''])) ''M2''
   \<and> path_to_actor (init [''M1/A/M2'', ''M2/B'']) ''M2'' ''M2'' = Some (Inr ([''M2''], - 1))
   \<and> path_to_actor (init [''M1/A/M2'', ''M2/B'']) ''M2'' ''M2'' \<noteq> Some (Inr ([''M2''], 0))"
  by code_simp

section \<open>Walks\<close>

lemma walk_nonempty: "walk gr p \<Longrightarrow> p \<noteq> []"
  by (cases p) auto

lemma walk_snoc:
  "walk gr (p @ [v]) = (p = [] \<or> (walk gr p \<and> v \<in> set (adj gr (last p))))"
  by (induction gr p rule: walk.induct) auto

lemma walk_append:
  "walk gr p \<Longrightarrow> walk gr q \<Longrightarrow> hd q \<in> set (adj gr (last p)) \<Longrightarrow> walk gr (p @ q)"
proof (induction gr p rule: walk.induct)
  case (2 gr v)
  then show ?case by (cases q) auto
qed auto

lemma walk_join:
  "walk gr p \<Longrightarrow> walk gr (x # q) \<Longrightarrow> last p = x \<Longrightarrow> walk gr (p @ q)"
proof (induction gr p rule: walk.induct)
  case (2 gr v)
  then show ?case by simp
qed auto

lemma walk_rev: "undirected gr \<Longrightarrow> walk gr p \<Longrightarrow> walk gr (rev p)"
proof (induction gr p rule: walk.induct)
  case (3 gr u v p)
  then have w: "walk gr (rev (v # p))" and e: "u \<in> set (adj gr v)"
    by (auto simp: undirected_def)
  have "last (rev (v # p)) = v" by simp
  with w e have "walk gr (rev (v # p) @ [u])"
    by (subst walk_snoc) simp
  then show ?case by simp
qed auto

lemma walk_take: "walk gr p \<Longrightarrow> walk gr (take (Suc k) p)"
proof (induction gr p arbitrary: k rule: walk.induct)
  case (3 gr u v p)
  show ?case
  proof (cases k)
    case 0
    then show ?thesis by simp
  next
    case (Suc j)
    from 3 have "walk gr (take (Suc j) (v # p))" by simp
    with 3 Suc show ?thesis by simp
  qed
qed auto

lemma walk_drop: "walk gr p \<Longrightarrow> k < length p \<Longrightarrow> walk gr (drop k p)"
proof (induction gr p arbitrary: k rule: walk.induct)
  case (3 gr u v p)
  show ?case
  proof (cases k)
    case 0
    with 3 show ?thesis by simp
  next
    case (Suc j)
    with 3 have "walk gr (drop j (v # p))" by simp
    with Suc show ?thesis by simp
  qed
qed auto

lemma reachable_sym: "undirected gr \<Longrightarrow> reachable gr s t \<Longrightarrow> reachable gr t s"
proof -
  assume s: "undirected gr" and "reachable gr s t"
  then obtain p where p: "walk gr p" "hd p = s" "last p = t" by (auto simp: reachable_def)
  then have "p \<noteq> []" by (auto dest: walk_nonempty)
  with p have "walk gr (rev p)" "hd (rev p) = t" "last (rev p) = s"
    using walk_rev[OF s] by (auto simp: hd_rev last_rev)
  then show ?thesis unfolding reachable_def by blast
qed

section \<open>Breadth-first layers\<close>

lemma layered_init: "layered gr r {r} (\<lambda>_. 0) {r} 0"
  by (auto simp: layered_def)

lemma layered_root: "layered gr r V \<delta> F d \<Longrightarrow> r \<in> V \<and> \<delta> r = 0"
  by (simp add: layered_def)

lemma layered_le: "layered gr r V \<delta> F d \<Longrightarrow> v \<in> V \<Longrightarrow> \<delta> v \<le> d"
  by (simp add: layered_def)

lemma layered_fringe: "layered gr r V \<delta> F d \<Longrightarrow> F = {v \<in> V. \<delta> v = d}"
  by (simp add: layered_def)

lemma layered_parent:
  "layered gr r V \<delta> F d \<Longrightarrow> v \<in> V \<Longrightarrow> v \<noteq> r
   \<Longrightarrow> \<exists>u \<in> V. v \<in> set (adj gr u) \<and> \<delta> v = Suc (\<delta> u)"
  by (simp add: layered_def)

lemma layered_closed:
  "layered gr r V \<delta> F d \<Longrightarrow> v \<in> V \<Longrightarrow> \<delta> v < d \<Longrightarrow> w \<in> set (adj gr v)
   \<Longrightarrow> w \<in> V \<and> \<delta> w \<le> Suc (\<delta> v)"
  by (simp add: layered_def)

text \<open>Every visited node is reached by a walk of as many hops as its depth.\<close>

lemma layered_walk:
  assumes L: "layered gr r V \<delta> F d"
  shows "v \<in> V \<Longrightarrow> \<exists>p. walk gr p \<and> hd p = r \<and> last p = v \<and> hops p = \<delta> v"
proof (induction "\<delta> v" arbitrary: v)
  case 0
  have "v = r"
  proof (rule ccontr)
    assume "v \<noteq> r"
    from layered_parent[OF L 0(2) this] 0(1) show False by auto
  qed
  then have "walk gr [r] \<and> hd [r] = r \<and> last [r] = v \<and> hops [r] = \<delta> v"
    using 0 by (simp add: hops_def)
  then show ?case by blast
next
  case (Suc n)
  then have "v \<noteq> r" using layered_root[OF L] by auto
  from layered_parent[OF L Suc(3) this] obtain u where
    u: "u \<in> V" "v \<in> set (adj gr u)" "\<delta> v = Suc (\<delta> u)" by blast
  with Suc(2) have "n = \<delta> u" by simp
  from Suc(1)[OF this u(1)] obtain p where
    p: "walk gr p" "hd p = r" "last p = u" "hops p = \<delta> u" by blast
  then have ne: "p \<noteq> []" by (auto dest: walk_nonempty)
  have "walk gr (p @ [v])" using p u ne by (simp add: walk_snoc)
  moreover have "hd (p @ [v]) = r" using p ne by simp
  moreover have "hops (p @ [v]) = \<delta> v" using p u ne by (cases p) (auto simp: hops_def)
  ultimately have "walk gr (p @ [v]) \<and> hd (p @ [v]) = r \<and> last (p @ [v]) = v \<and> hops (p @ [v]) = \<delta> v"
    by simp
  then show ?case by blast
qed

text \<open>Every node within \<open>d\<close> hops of the root is visited, at a depth no larger than the hops.\<close>

lemma layered_ball:
  assumes L: "layered gr r V \<delta> F d"
  shows "walk gr p \<Longrightarrow> hd p = r \<Longrightarrow> hops p \<le> d \<Longrightarrow> last p \<in> V \<and> \<delta> (last p) \<le> hops p"
proof (induction p rule: rev_induct)
  case Nil
  then show ?case by simp
next
  case (snoc v p)
  show ?case
  proof (cases "p = []")
    case True
    with snoc have "v = r" by simp
    with True layered_root[OF L] show ?thesis by (simp add: hops_def)
  next
    case False
    with snoc.prems have w: "walk gr p" and e: "v \<in> set (adj gr (last p))"
      by (auto simp: walk_snoc)
    from False snoc.prems have h: "hd p = r" by simp
    from False snoc.prems have hp: "Suc (hops p) = hops (p @ [v])"
      by (cases p) (auto simp: hops_def)
    with snoc.prems have "hops p \<le> d" by simp
    from snoc.IH[OF w h this] have i: "last p \<in> V" "\<delta> (last p) \<le> hops p" by auto
    with hp snoc.prems have "\<delta> (last p) < d" by simp
    from layered_closed[OF L i(1) this e] i(2) hp show ?thesis by simp
  qed
qed

text \<open>With an empty fringe the visited set is closed under walks from the root.\<close>

lemma layered_closure:
  assumes L: "layered gr r V \<delta> {} d"
  shows "walk gr p \<Longrightarrow> hd p = r \<Longrightarrow> last p \<in> V"
proof (induction p rule: rev_induct)
  case Nil
  then show ?case by simp
next
  case (snoc v p)
  show ?case
  proof (cases "p = []")
    case True
    with snoc layered_root[OF L] show ?thesis by simp
  next
    case False
    with snoc.prems have w: "walk gr p" and e: "v \<in> set (adj gr (last p))"
      by (auto simp: walk_snoc)
    from False snoc.prems have h: "hd p = r" by simp
    from snoc.IH[OF w h] have i: "last p \<in> V" .
    have "\<delta> (last p) \<noteq> d" using layered_fringe[OF L] i by blast
    with layered_le[OF L i] have "\<delta> (last p) < d" by simp
    from layered_closed[OF L i this e] show ?thesis by simp
  qed
qed

text \<open>The depth of a visited node is the least number of hops of a walk to it.\<close>

lemma layered_least:
  assumes L: "layered gr r V \<delta> F d" and v: "last p \<in> V"
    and p: "walk gr p" "hd p = r"
  shows "\<delta> (last p) \<le> hops p"
proof (cases "hops p \<le> d")
  case True
  from layered_ball[OF L p this] show ?thesis by simp
next
  case False
  with layered_le[OF L v] show ?thesis by simp
qed

text \<open>One more level: the unvisited neighbours of the fringe become the new fringe.\<close>

lemma layered_step:
  assumes L: "layered gr r V \<delta> F d"
    and N: "N = (\<Union>v \<in> F. set (adj gr v)) - V"
  shows "layered gr r (V \<union> N) (\<lambda>x. if x \<in> V then \<delta> x else Suc d) N (Suc d)"
  unfolding layered_def
proof (intro conjI ballI impI)
  show "r \<in> V \<union> N" using layered_root[OF L] by simp
  show "(if r \<in> V then \<delta> r else Suc d) = 0" using layered_root[OF L] by simp
next
  fix v assume "v \<in> V \<union> N"
  then show "(if v \<in> V then \<delta> v else Suc d) \<le> Suc d"
    using layered_le[OF L, of v] by auto
next
  show "N = {v \<in> V \<union> N. (if v \<in> V then \<delta> v else Suc d) = Suc d}"
  proof -
    have "\<And>v. v \<in> V \<Longrightarrow> \<delta> v \<noteq> Suc d" using layered_le[OF L] by fastforce
    moreover have "N \<inter> V = {}" using N by blast
    ultimately show ?thesis by auto
  qed
next
  fix v assume v: "v \<in> V \<union> N" "v \<noteq> r"
  show "\<exists>u \<in> V \<union> N. v \<in> set (adj gr u) \<and>
          (if v \<in> V then \<delta> v else Suc d) = Suc (if u \<in> V then \<delta> u else Suc d)"
  proof (cases "v \<in> V")
    case True
    from layered_parent[OF L True v(2)] obtain u where
      "u \<in> V" "v \<in> set (adj gr u)" "\<delta> v = Suc (\<delta> u)" by blast
    with True show ?thesis by auto
  next
    case False
    with v N obtain u where u: "u \<in> F" "v \<in> set (adj gr u)" by blast
    then have "u \<in> V" "\<delta> u = d" using layered_fringe[OF L] by auto
    with u False show ?thesis by auto
  qed
next
  fix v w assume v: "v \<in> V \<union> N" "(if v \<in> V then \<delta> v else Suc d) < Suc d"
    and w: "w \<in> set (adj gr v)"
  from v have vV: "v \<in> V" by (auto split: if_splits)
  show "w \<in> V \<union> N" 
  proof (cases "\<delta> v < d")
    case True
    from layered_closed[OF L vV True w] show ?thesis by simp
  next
    case False
    with layered_le[OF L vV] have "\<delta> v = d" by simp
    with vV have "v \<in> F" using layered_fringe[OF L] by simp
    with w N show ?thesis by blast
  qed
  show "(if w \<in> V then \<delta> w else Suc d) \<le> Suc (if v \<in> V then \<delta> v else Suc d)"
  proof (cases "w \<in> V")
    case wV: True
    show ?thesis
    proof (cases "\<delta> v < d")
      case True
      from layered_closed[OF L vV True w] vV wV show ?thesis by simp
    next
      case False
      with layered_le[OF L vV] have "\<delta> v = d" by simp
      with layered_le[OF L wV] vV wV show ?thesis by simp
    qed
  next
    case wV: False
    have "\<not> \<delta> v < d" using layered_closed[OF L vV _ w] wV by blast
    with layered_le[OF L vV] have "\<delta> v = d" by simp
    with vV wV show ?thesis by simp
  qed
qed

section \<open>What a pass of the two-sided search does\<close>

lemma extends_old: "extends gr m m' vs \<Longrightarrow> m x \<noteq> None \<Longrightarrow> m' x = m x"
  by (simp add: extends_def)

lemma extends_new:
  "extends gr m m' vs \<Longrightarrow> m x = None \<Longrightarrow> m' x \<noteq> None
   \<Longrightarrow> \<exists>v \<in> set vs. x \<in> set (adj gr v) \<and> m' x = Some (Some v)"
  by (simp add: extends_def)

lemma extends_trans:
  assumes a: "extends gr m m1 [v]" and b: "extends gr m1 m' vs"
  shows "extends gr m m' (v # vs)"
  unfolding extends_def
proof (intro conjI allI impI)
  fix x assume "m x \<noteq> None"
  then have "m1 x = m x" "m1 x \<noteq> None" using extends_old[OF a] by auto
  then show "m' x = m x" using extends_old[OF b, of x] by simp
next
  fix x assume x: "m x = None" "m' x \<noteq> None"
  show "\<exists>u \<in> set (v # vs). x \<in> set (adj gr u) \<and> m' x = Some (Some u)"
  proof (cases "m1 x = None")
    case True
    from extends_new[OF b True x(2)] show ?thesis by auto
  next
    case False
    from extends_new[OF a x(1) False] have "x \<in> set (adj gr v)" "m1 x = Some (Some v)" by auto
    moreover have "m' x = m1 x" using extends_old[OF b False] .
    ultimately show ?thesis by auto
  qed
qed

lemma scan_nbrs_Inr_extends:
  assumes "scan_nbrs mine other v (adj gr v) fr = Inr (m', fr')"
  shows "extends gr mine m' [v]"
proof -
  from scan_nbrs_Inr[OF assms] have
    "m' = (\<lambda>x. if mine x = None \<and> x \<in> set (adj gr v) then Some (Some v) else mine x)"
    by blast
  then show ?thesis by (auto simp: extends_def split: if_splits)
qed

lemma scan_nbrs_Inl:
  "scan_nbrs mine other v ws fr = Inl (m', w) \<Longrightarrow> dom mine \<inter> dom other = {} \<Longrightarrow>
     mine w = None \<and> other w \<noteq> None \<and> w \<in> set ws \<and> m' w = Some (Some v) \<and>
     (\<forall>x. mine x \<noteq> None \<longrightarrow> m' x = mine x) \<and>
     (\<forall>x. mine x = None \<longrightarrow> m' x \<noteq> None \<longrightarrow> x \<in> set ws \<and> m' x = Some (Some v))"
proof (induction ws arbitrary: mine fr)
  case Nil
  then show ?case by simp
next
  case (Cons a ws)
  show ?case
  proof (cases "mine a = None")
    case new: True
    show ?thesis
    proof (cases "other a = None")
      case True
      with new Cons.prems have
        r: "scan_nbrs (mine(a \<mapsto> Some v)) other v ws (fr @ [a]) = Inl (m', w)"
        by simp
      have d: "dom (mine(a \<mapsto> Some v)) \<inter> dom other = {}"
        using Cons.prems(2) True by auto
      note I = Cons.IH[OF r d]
      from I have w: "(mine(a \<mapsto> Some v)) w = None" "other w \<noteq> None" "w \<in> set ws"
        "m' w = Some (Some v)" by blast+
      from I have old: "\<And>x. (mine(a \<mapsto> Some v)) x \<noteq> None \<Longrightarrow> m' x = (mine(a \<mapsto> Some v)) x"
        by blast
      from I have nw: "\<And>x. (mine(a \<mapsto> Some v)) x = None \<Longrightarrow> m' x \<noteq> None
                         \<Longrightarrow> x \<in> set ws \<and> m' x = Some (Some v)"
        by blast
      have wa: "w \<noteq> a" using w(1) by auto
      show ?thesis
      proof (intro conjI allI impI)
        show "mine w = None" using w(1) wa by simp
        show "other w \<noteq> None" by fact
        show "w \<in> set (a # ws)" using w(3) by simp
        show "m' w = Some (Some v)" by fact
      next
        fix x assume "mine x \<noteq> None"
        then have "x \<noteq> a" using new by auto
        with \<open>mine x \<noteq> None\<close> show "m' x = mine x" using old[of x] by simp
      next
        fix x assume x: "mine x = None" "m' x \<noteq> None"
        show "x \<in> set (a # ws)"
          using nw[of x] old[of a] x by (cases "x = a") auto
        show "m' x = Some (Some v)"
          using nw[of x] old[of a] x by (cases "x = a") auto
      qed
    next
      case False
      with new Cons.prems have "m' = mine(a \<mapsto> Some v)" "w = a" by auto
      with new False show ?thesis by auto
    qed
  next
    case old: False
    then have "other a = None" using Cons.prems(2) by (auto simp: dom_def)
    with old Cons.prems have r: "scan_nbrs mine other v ws fr = Inl (m', w)"
      by (cases "mine a") auto
    note I = Cons.IH[OF r Cons.prems(2)]
    from I show ?thesis by auto
  qed
qed

lemma scan_nbrs_Inl_extends:
  assumes "scan_nbrs mine other v (adj gr v) fr = Inl (m', w)" "dom mine \<inter> dom other = {}"
  shows "extends gr mine m' [v]"
  using scan_nbrs_Inl[OF assms] by (simp add: extends_def)

lemma scan_nbrs_Inr_disjoint:
  assumes "scan_nbrs mine other v ws fr = Inr (m', fr')" "dom mine \<inter> dom other = {}"
  shows "dom m' \<inter> dom other = {}"
proof -
  note S = scan_nbrs_Inr[OF assms(1)]
  from S have m: "m' = (\<lambda>x. if mine x = None \<and> x \<in> set ws then Some (Some v) else mine x)"
    by blast
  from S have o: "\<And>x. x \<in> set ws \<Longrightarrow> other x = None" by blast
  show ?thesis
  proof (rule ccontr)
    assume "dom m' \<inter> dom other \<noteq> {}"
    then obtain x where x: "m' x \<noteq> None" "other x \<noteq> None" by (auto simp: dom_def)
    have "x \<notin> set ws" using o[of x] x(2) by auto
    with x(1) have "mine x \<noteq> None" unfolding m by simp
    with x(2) assms(2) show False by (auto simp: dom_def)
  qed
qed

text \<open>A pass over a level that ends the search.\<close>

lemma scan_level_Inl:
  "scan_level gr mine other vs fr = Inl (m', w) \<Longrightarrow> dom mine \<inter> dom other = {} \<Longrightarrow>
     mine w = None \<and> other w \<noteq> None \<and> m' w \<noteq> None \<and> extends gr mine m' vs"
proof (induction vs arbitrary: mine fr)
  case Nil
  then show ?case by simp
next
  case (Cons v vs)
  show ?case
  proof (cases "scan_nbrs mine other v (adj gr v) fr")
    case (Inl found)
    with Cons.prems have f: "scan_nbrs mine other v (adj gr v) fr = Inl (m', w)" by simp
    note S = scan_nbrs_Inl[OF f Cons.prems(2)]
    have e1: "extends gr mine m' [v]" by (rule scan_nbrs_Inl_extends[OF f Cons.prems(2)])
    have e2: "extends gr m' m' vs" by (simp add: extends_def)
    from S extends_trans[OF e1 e2] show ?thesis by simp
  next
    case (Inr cont)
    obtain m1 f1 where c: "cont = (m1, f1)" by (cases cont)
    with Inr have a: "scan_nbrs mine other v (adj gr v) fr = Inr (m1, f1)" by simp
    with Cons.prems have r: "scan_level gr m1 other vs f1 = Inl (m', w)" by simp
    have d: "dom m1 \<inter> dom other = {}" by (rule scan_nbrs_Inr_disjoint[OF a Cons.prems(2)])
    note I = Cons.IH[OF r d]
    have e1: "extends gr mine m1 [v]" by (rule scan_nbrs_Inr_extends[OF a])
    from I have e2: "extends gr m1 m' vs" by simp
    have "mine w = None"
    proof (rule ccontr)
      assume "mine w \<noteq> None"
      then have "m1 w = mine w" using extends_old[OF e1] by simp
      with \<open>mine w \<noteq> None\<close> I show False by simp
    qed
    with I extends_trans[OF e1 e2] show ?thesis by simp
  qed
qed

text \<open>A pass over a level that runs to its end.\<close>

lemma scan_level_Inr_extends:
  assumes "scan_level gr mine other vs fr = Inr (m', fr')"
  shows "extends gr mine m' vs"
proof -
  note S = scan_level_Inr[OF assms]
  from S have keep: "\<And>x. mine x \<noteq> None \<Longrightarrow> m' x = mine x" by blast
  from S have out: "\<And>x. mine x = None \<Longrightarrow> x \<notin> nbrs_of gr vs \<Longrightarrow> m' x = None" by blast
  from S have new0: "\<And>x. mine x = None \<Longrightarrow> x \<in> nbrs_of gr vs \<Longrightarrow>
          (\<exists>v \<in> set vs. x \<in> set (adj gr v) \<and> m' x = Some (Some v))" by blast
  show ?thesis
    unfolding extends_def
  proof (intro conjI allI impI)
    fix x assume "mine x \<noteq> None" then show "m' x = mine x" by (rule keep)
  next
    fix x assume x: "mine x = None" "m' x \<noteq> None"
    have "x \<in> nbrs_of gr vs" using out[OF x(1)] x(2) by blast
    from new0[OF x(1) this]
    show "\<exists>v \<in> set vs. x \<in> set (adj gr v) \<and> m' x = Some (Some v)" .
  qed
qed

lemma scan_level_Inr_dom:
  assumes "scan_level gr mine other vs fr = Inr (m', fr')"
  shows "dom m' = dom mine \<union> (nbrs_of gr vs - dom mine)"
proof -
  note S = scan_level_Inr[OF assms]
  from S have keep: "\<And>x. mine x \<noteq> None \<Longrightarrow> m' x = mine x" by blast
  from S have out: "\<And>x. mine x = None \<Longrightarrow> x \<notin> nbrs_of gr vs \<Longrightarrow> m' x = None" by blast
  from S have new0: "\<forall>x. mine x = None \<longrightarrow> x \<in> nbrs_of gr vs \<longrightarrow>
          (\<exists>v \<in> set vs. x \<in> set (adj gr v) \<and> m' x = Some (Some v))" by blast
  have new: "m' x \<noteq> None" if "mine x = None" "x \<in> nbrs_of gr vs" for x
  proof -
    from new0 that obtain v where "m' x = Some (Some v)" by blast
    then show ?thesis by simp
  qed
  show ?thesis
  proof (intro set_eqI iffI)
    fix x assume "x \<in> dom m'"
    then have n: "m' x \<noteq> None" by (simp add: dom_def)
    show "x \<in> dom mine \<union> (nbrs_of gr vs - dom mine)"
    proof (cases "mine x = None")
      case True
      have "x \<in> nbrs_of gr vs" using out[OF True] n by blast
      then show ?thesis by simp
    next
      case False
      then show ?thesis by (simp add: dom_def)
    qed
  next
    fix x assume "x \<in> dom mine \<union> (nbrs_of gr vs - dom mine)"
    then show "x \<in> dom m'"
      using keep[of x] new[of x] by (cases "mine x = None") (auto simp: dom_def)
  qed
qed

lemma scan_level_Inr_fringe:
  assumes "scan_level gr mine other vs [] = Inr (m', fr')"
  shows "set fr' = nbrs_of gr vs - dom mine"
proof -
  from scan_level_Inr[OF assms] have "set fr' = set [] \<union> {x \<in> nbrs_of gr vs. mine x = None}"
    by blast
  then show ?thesis by (auto simp: dom_def)
qed

lemma scan_level_Inr_disjoint:
  assumes "scan_level gr mine other vs fr = Inr (m', fr')" "dom mine \<inter> dom other = {}"
  shows "dom m' \<inter> dom other = {}"
proof -
  from scan_level_Inr[OF assms(1)] have o: "\<And>x. x \<in> nbrs_of gr vs \<Longrightarrow> other x = None" by blast
  have "dom m' = dom mine \<union> (nbrs_of gr vs - dom mine)" by (rule scan_level_Inr_dom[OF assms(1)])
  moreover have "(nbrs_of gr vs - dom mine) \<inter> dom other = {}" using o by (auto simp: dom_def)
  ultimately show ?thesis using assms(2) by blast
qed

section \<open>Trees of parents\<close>

lemma tree_ok_init: "tree_ok gr [r \<mapsto> None] r (\<lambda>_. 0)"
  by (auto simp: tree_ok_def)

lemma tree_ok_parent:
  "tree_ok gr m r \<delta> \<Longrightarrow> m v = Some (Some u)
   \<Longrightarrow> m u \<noteq> None \<and> v \<in> set (adj gr u) \<and> \<delta> v = Suc (\<delta> u)"
  by (simp add: tree_ok_def)

lemma tree_ok_root: "tree_ok gr m r \<delta> \<Longrightarrow> m v = Some None \<Longrightarrow> v = r"
  by (simp add: tree_ok_def)

text \<open>Reading a branch off a tree ends at the root and gives a walk from the root.\<close>

lemma chase_tree:
  assumes T: "tree_ok gr m r \<delta>"
  shows "m v \<noteq> None \<Longrightarrow>
         \<exists>p. chase m (Some v) acc = Some (Inr (acc @ v # p)) \<and> last (v # p) = r
              \<and> length p = \<delta> v \<and> walk gr (rev (v # p))"
proof (induction "\<delta> v" arbitrary: v acc)
  case 0
  then obtain x where x: "m v = Some x" by auto
  have "x = None"
  proof (cases x)
    case (Some u)
    with x tree_ok_parent[OF T] 0(1) show ?thesis by auto
  qed simp
  with x have mv: "m v = Some None" by simp
  then have "v = r" by (rule tree_ok_root[OF T])
  have "chase m (Some v) acc = Some (Inr (acc @ [v]))"
    using mv by (simp add: chase.simps)
  with \<open>v = r\<close> 0(1) show ?case by simp
next
  case (Suc n)
  then obtain x where x: "m v = Some x" by auto
  have "x \<noteq> None"
  proof
    assume "x = None"
    with x have "v = r" using tree_ok_root[OF T] by simp
    with T Suc(2) show False by (simp add: tree_ok_def)
  qed
  then obtain u where u: "m v = Some (Some u)" using x by auto
  from tree_ok_parent[OF T u] have pu: "m u \<noteq> None" "v \<in> set (adj gr u)" "\<delta> v = Suc (\<delta> u)"
    by auto
  with Suc(2) have "n = \<delta> u" by simp
  from Suc(1)[OF this pu(1), of "acc @ [v]"] obtain p where
    p: "chase m (Some u) (acc @ [v]) = Some (Inr ((acc @ [v]) @ u # p))" "last (u # p) = r"
       "length p = \<delta> u" "walk gr (rev (u # p))" by blast
  have c: "chase m (Some v) acc = chase m (Some u) (acc @ [v])"
    using u by (subst chase.simps) simp
  have w: "walk gr (rev (v # u # p))"
  proof -
    have "last (rev (u # p)) = u" by simp
    with p(4) pu(2) have "walk gr (rev (u # p) @ [v])" by (subst walk_snoc) simp
    then show ?thesis by simp
  qed
  have "chase m (Some v) acc = Some (Inr (acc @ v # (u # p))) \<and> last (v # u # p) = r
        \<and> length (u # p) = \<delta> v \<and> walk gr (rev (v # u # p))"
    using c p pu w by simp
  then show ?case by blast
qed

text \<open>The tree stays a tree when a pass hangs new nodes below the fringe.\<close>

lemma tree_ok_extends:
  assumes T: "tree_ok gr m r \<delta>" and L: "layered gr r (dom m) \<delta> (set vs) d"
    and E: "extends gr m m' vs"
  shows "tree_ok gr m' r (\<lambda>x. if x \<in> dom m then \<delta> x else Suc d)"
  unfolding tree_ok_def
proof (intro conjI allI impI)
  have r: "m r = Some None" "\<delta> r = 0" using T by (auto simp: tree_ok_def)
  then show "m' r = Some None" using extends_old[OF E, of r] by simp
  show "(if r \<in> dom m then \<delta> r else Suc d) = 0" using r by (simp add: dom_def)
next
  fix v assume v: "m' v = Some None"
  show "v = r"
  proof (cases "m v = None")
    case True
    from extends_new[OF E True] v show ?thesis by auto
  next
    case False
    with extends_old[OF E False] v have "m v = Some None" by simp
    then show ?thesis by (rule tree_ok_root[OF T])
  qed
next
  fix v u assume vu: "m' v = Some (Some u)"
  have "m' u \<noteq> None \<and> v \<in> set (adj gr u) \<and>
        (if v \<in> dom m then \<delta> v else Suc d) = Suc (if u \<in> dom m then \<delta> u else Suc d)"
  proof (cases "m v = None")
    case True
    from extends_new[OF E True] vu have u: "u \<in> set vs" "v \<in> set (adj gr u)" by auto
    then have "u \<in> dom m" "\<delta> u = d" using layered_fringe[OF L] by auto
    moreover from this have "m' u \<noteq> None" using extends_old[OF E, of u] by (auto simp: dom_def)
    ultimately show ?thesis using True u by (auto simp: dom_def)
  next
    case False
    with extends_old[OF E False] vu have mv: "m v = Some (Some u)" by simp
    from tree_ok_parent[OF T mv] have p: "m u \<noteq> None" "v \<in> set (adj gr u)" "\<delta> v = Suc (\<delta> u)"
      by auto
    then have "m' u \<noteq> None" using extends_old[OF E, of u] by simp
    with p False show ?thesis by (auto simp: dom_def)
  qed
  then show "m' u \<noteq> None" "v \<in> set (adj gr u)"
    "(if v \<in> dom m then \<delta> v else Suc d) = Suc (if u \<in> dom m then \<delta> u else Suc d)"
    by auto
qed

text \<open>
  While the two trees are disjoint, every walk between the roots is longer
  than the two depths together.
\<close>

lemma disjoint_lower_bound:
  assumes S: "undirected gr"
    and Lf: "layered gr s Vf \<delta>f Ff df" and Lr: "layered gr t Vr \<delta>r Fr dr"
    and D: "Vf \<inter> Vr = {}"
    and q: "walk gr q" "hd q = s" "last q = t"
  shows "df + dr < hops q"
proof (rule ccontr)
  assume "\<not> df + dr < hops q"
  then have le: "hops q \<le> df + dr" by simp
  from q have ne: "q \<noteq> []" by (auto dest: walk_nonempty)
  define k where "k = min df (hops q)"
  have "0 < length q" using ne by simp
  then have kl: "k < length q" unfolding k_def hops_def by linarith
  let ?q1 = "take (Suc k) q" and ?q2 = "drop k q"
  have w1: "walk gr ?q1" by (rule walk_take[OF q(1)])
  have h1: "hd ?q1 = s" using q ne by simp
  have l1: "last ?q1 = q ! k" using kl by (simp add: take_Suc_conv_app_nth)
  have "length ?q1 = Suc k" using kl by simp
  then have "hops ?q1 = k" by (simp add: hops_def)
  then have "hops ?q1 \<le> df" by (simp add: k_def)
  from layered_ball[OF Lf w1 h1 this] l1 have x1: "q ! k \<in> Vf" by simp
  have w2: "walk gr ?q2" by (rule walk_drop[OF q(1) kl])
  have h2: "hd ?q2 = q ! k" using kl by (simp add: hd_drop_conv_nth)
  have l2: "last ?q2 = t" using kl q by simp
  have "hops ?q2 = hops q - k" by (simp add: hops_def)
  with le have b2: "hops ?q2 \<le> dr" by (simp add: k_def)
  have ne2: "?q2 \<noteq> []" using kl by simp
  have w3: "walk gr (rev ?q2)" by (rule walk_rev[OF S w2])
  have h3: "hd (rev ?q2) = t" using l2 ne2 by (simp add: hd_rev)
  have l3: "last (rev ?q2) = q ! k" using h2 ne2 by (simp add: last_rev)
  have "hops (rev ?q2) \<le> dr" using b2 by (simp add: hops_def)
  from layered_ball[OF Lr w3 h3 this] l3 have "q ! k \<in> Vr" by simp
  with x1 D show False by blast
qed

section \<open>The two-sided search finds a shortest walk\<close>

text \<open>One pass that runs to its end keeps a layered tree layered, one level deeper.\<close>

lemma scan_level_layered:
  assumes L: "layered gr r (dom m) \<delta> (set vs) d"
    and sc: "scan_level gr m other vs [] = Inr (m', fr')"
  shows "layered gr r (dom m') (\<lambda>x. if x \<in> dom m then \<delta> x else Suc d) (set fr') (Suc d)"
proof -
  have N: "nbrs_of gr vs - dom m = (\<Union>v \<in> set vs. set (adj gr v)) - dom m"
    by (simp add: nbrs_of_def)
  have d: "dom m' = dom m \<union> (nbrs_of gr vs - dom m)" by (rule scan_level_Inr_dom[OF sc])
  have f: "set fr' = nbrs_of gr vs - dom m" by (rule scan_level_Inr_fringe[OF sc])
  from layered_step[OF L N] show ?thesis unfolding d f .
qed

text \<open>A pass that ends the search: the meeting node is one level below the fringe.\<close>

lemma scan_level_found_depth:
  assumes L: "layered gr r (dom m) \<delta> (set vs) d"
    and sc: "scan_level gr m other vs [] = Inl (m', w)" and D: "dom m \<inter> dom other = {}"
  shows "m' w \<noteq> None" "other w \<noteq> None" "extends gr m m' vs" "w \<notin> dom m"
  using scan_level_Inl[OF sc D] by (auto simp: dom_def)

lemma bidir_loop_correct:
  "undirected gr \<Longrightarrow> bidir_inv gr s t pred succ ff rf \<delta>f \<delta>r df dr \<Longrightarrow>
    (case bidir_loop gr pred succ ff rf of
       Inl e \<Rightarrow> e = NetworkXNoPath \<and> \<not> reachable gr s t
     | Inr (pred', succ', w) \<Rightarrow> meet_ok gr s t pred' succ' w)"
proof (induction gr pred succ ff rf arbitrary: \<delta>f \<delta>r df dr rule: bidir_loop.induct)
  case (1 gr pred succ ff rf)
  note S = "1.prems"(1) and I = "1.prems"(2)
  from I have Lf: "layered gr s (dom pred) \<delta>f (set ff) df" and Tf: "tree_ok gr pred s \<delta>f"
    and Lr: "layered gr t (dom succ) \<delta>r (set rf) dr" and Tr: "tree_ok gr succ t \<delta>r"
    and D: "dom pred \<inter> dom succ = {}"
    by (simp_all add: bidir_inv_def)
  have D': "dom succ \<inter> dom pred = {}" using D by blast
  show ?case
  proof (cases "ff = [] \<or> rf = []")
    case True
    have nc: "\<not> reachable gr s t"
    proof
      assume "reachable gr s t"
      then obtain q where q: "walk gr q" "hd q = s" "last q = t" by (auto simp: reachable_def)
      from True show False
      proof
        assume "ff = []"
        with Lf have "layered gr s (dom pred) \<delta>f {} df" by simp
        from layered_closure[OF this q(1,2)] q(3) have "t \<in> dom pred" by simp
        moreover have "t \<in> dom succ" using layered_root[OF Lr] by simp
        ultimately show False using D by blast
      next
        assume "rf = []"
        with Lr have Lr': "layered gr t (dom succ) \<delta>r {} dr" by simp
        from q have ne: "q \<noteq> []" by (auto dest: walk_nonempty)
        have "walk gr (rev q)" by (rule walk_rev[OF S q(1)])
        moreover have "hd (rev q) = t" using q ne by (simp add: hd_rev)
        ultimately have "last (rev q) \<in> dom succ" by (rule layered_closure[OF Lr'])
        then have "s \<in> dom succ" using q ne by (simp add: last_rev)
        moreover have "s \<in> dom pred" using layered_root[OF Lf] by simp
        ultimately show False using D by blast
      qed
    qed
    from True have "bidir_loop gr pred succ ff rf = Inl NetworkXNoPath"
      by (subst bidir_loop.simps) simp
    with nc show ?thesis by simp
  next
    case ne: False
    show ?thesis
    proof (cases "length ff \<le> length rf")
      case fw: True
      show ?thesis
      proof (cases "scan_level gr pred succ ff []")
        case (Inl found)
        obtain pred' w where fo: "found = (pred', w)" by (cases found)
        with Inl have sc: "scan_level gr pred succ ff [] = Inl (pred', w)" by simp
        note F = scan_level_found_depth[OF Lf sc D]
        let ?\<delta> = "\<lambda>x. if x \<in> dom pred then \<delta>f x else Suc df"
        have T': "tree_ok gr pred' s ?\<delta>" by (rule tree_ok_extends[OF Tf Lf F(3)])
        have "w \<in> dom succ" using F(2) by (simp add: dom_def)
        then have "\<delta>r w \<le> dr" by (rule layered_le[OF Lr])
        then have b: "?\<delta> w + \<delta>r w \<le> Suc (df + dr)" using F(4) by simp
        have "\<forall>q. walk gr q \<longrightarrow> hd q = s \<longrightarrow> last q = t \<longrightarrow> ?\<delta> w + \<delta>r w \<le> hops q"
        proof (intro allI impI)
          fix q assume "walk gr q" "hd q = s" "last q = t"
          from disjoint_lower_bound[OF S Lf Lr D this] b show "?\<delta> w + \<delta>r w \<le> hops q" by simp
        qed
        with T' Tr F have "meet_ok gr s t pred' succ w" unfolding meet_ok_def by blast
        moreover have "bidir_loop gr pred succ ff rf = Inr (pred', succ, w)"
          using ne fw sc by (subst bidir_loop.simps) simp
        ultimately show ?thesis by simp
      next
        case (Inr cont)
        obtain pred' ff' where co: "cont = (pred', ff')" by (cases cont)
        with Inr have sc: "scan_level gr pred succ ff [] = Inr (pred', ff')" by simp
        let ?\<delta> = "\<lambda>x. if x \<in> dom pred then \<delta>f x else Suc df"
        have L': "layered gr s (dom pred') ?\<delta> (set ff') (Suc df)"
          by (rule scan_level_layered[OF Lf sc])
        have T': "tree_ok gr pred' s ?\<delta>"
          by (rule tree_ok_extends[OF Tf Lf scan_level_Inr_extends[OF sc]])
        have D2: "dom pred' \<inter> dom succ = {}" by (rule scan_level_Inr_disjoint[OF sc D])
        have inv': "bidir_inv gr s t pred' succ ff' rf ?\<delta> \<delta>r (Suc df) dr"
          using L' T' Lr Tr D2 by (simp add: bidir_inv_def)
        have "ff \<noteq> [] \<and> rf \<noteq> []" using ne by simp
        from "1.IH"(1)[OF ne fw Inr co[symmetric] S inv']
        have "case bidir_loop gr pred' succ ff' rf of
                Inl e \<Rightarrow> e = NetworkXNoPath \<and> \<not> reachable gr s t
              | Inr (pred', succ', w) \<Rightarrow> meet_ok gr s t pred' succ' w" .
        moreover have "bidir_loop gr pred succ ff rf = bidir_loop gr pred' succ ff' rf"
          using ne fw sc by (subst bidir_loop.simps) simp
        ultimately show ?thesis by simp
      qed
    next
      case bw: False
      show ?thesis
      proof (cases "scan_level gr succ pred rf []")
        case (Inl found)
        obtain succ' w where fo: "found = (succ', w)" by (cases found)
        with Inl have sc: "scan_level gr succ pred rf [] = Inl (succ', w)" by simp
        note F = scan_level_found_depth[OF Lr sc D']
        let ?\<delta> = "\<lambda>x. if x \<in> dom succ then \<delta>r x else Suc dr"
        have T': "tree_ok gr succ' t ?\<delta>" by (rule tree_ok_extends[OF Tr Lr F(3)])
        have "w \<in> dom pred" using F(2) by (simp add: dom_def)
        then have "\<delta>f w \<le> df" by (rule layered_le[OF Lf])
        then have b: "\<delta>f w + ?\<delta> w \<le> Suc (df + dr)" using F(4) by simp
        have "\<forall>q. walk gr q \<longrightarrow> hd q = s \<longrightarrow> last q = t \<longrightarrow> \<delta>f w + ?\<delta> w \<le> hops q"
        proof (intro allI impI)
          fix q assume "walk gr q" "hd q = s" "last q = t"
          from disjoint_lower_bound[OF S Lf Lr D this] b show "\<delta>f w + ?\<delta> w \<le> hops q" by simp
        qed
        with T' Tf F have "meet_ok gr s t pred succ' w" unfolding meet_ok_def by blast
        moreover have "bidir_loop gr pred succ ff rf = Inr (pred, succ', w)"
          using ne bw sc by (subst bidir_loop.simps) simp
        ultimately show ?thesis by simp
      next
        case (Inr cont)
        obtain succ' rf' where co: "cont = (succ', rf')" by (cases cont)
        with Inr have sc: "scan_level gr succ pred rf [] = Inr (succ', rf')" by simp
        let ?\<delta> = "\<lambda>x. if x \<in> dom succ then \<delta>r x else Suc dr"
        have L': "layered gr t (dom succ') ?\<delta> (set rf') (Suc dr)"
          by (rule scan_level_layered[OF Lr sc])
        have T': "tree_ok gr succ' t ?\<delta>"
          by (rule tree_ok_extends[OF Tr Lr scan_level_Inr_extends[OF sc]])
        have "dom succ' \<inter> dom pred = {}" by (rule scan_level_Inr_disjoint[OF sc D'])
        then have D2: "dom pred \<inter> dom succ' = {}" by blast
        have inv': "bidir_inv gr s t pred succ' ff rf' \<delta>f ?\<delta> df (Suc dr)"
          using L' T' Lf Tf D2 by (simp add: bidir_inv_def)
        from "1.IH"(2)[OF ne bw Inr co[symmetric] S inv']
        have "case bidir_loop gr pred succ' ff rf' of
                Inl e \<Rightarrow> e = NetworkXNoPath \<and> \<not> reachable gr s t
              | Inr (pred', succ', w) \<Rightarrow> meet_ok gr s t pred' succ' w" .
        moreover have "bidir_loop gr pred succ ff rf = bidir_loop gr pred succ' ff rf'"
          using ne bw sc by (subst bidir_loop.simps) simp
        ultimately show ?thesis by simp
      qed
    qed
  qed
qed

section \<open>Correctness of the shortest-path search\<close>

lemma build_path_correct:
  assumes S: "undirected gr" and M: "meet_ok gr s t pred succ w"
  shows "\<exists>p. build_path pred succ w = Some (Inr p) \<and> walk gr p \<and> hd p = s \<and> last p = t
             \<and> (\<forall>q. walk gr q \<longrightarrow> hd q = s \<longrightarrow> last q = t \<longrightarrow> hops p \<le> hops q)"
proof -
  from M obtain \<delta>f \<delta>r where Tf: "tree_ok gr pred s \<delta>f" and Tr: "tree_ok gr succ t \<delta>r"
    and pw: "pred w \<noteq> None" and sw: "succ w \<noteq> None"
    and mn: "\<And>q. walk gr q \<Longrightarrow> hd q = s \<Longrightarrow> last q = t \<Longrightarrow> \<delta>f w + \<delta>r w \<le> hops q"
    unfolding meet_ok_def by blast
  from chase_tree[OF Tf pw, of "[]"] obtain p1 where
    p1: "chase pred (Some w) [] = Some (Inr (w # p1))" "last (w # p1) = s"
        "length p1 = \<delta>f w" "walk gr (rev (w # p1))" by auto
  from chase_tree[OF Tr sw, of "rev p1"] obtain p2 where
    p2: "chase succ (Some w) (rev p1) = Some (Inr (rev p1 @ w # p2))" "last (w # p2) = t"
        "length p2 = \<delta>r w" "walk gr (rev (w # p2))" by auto
  from sw obtain nxt where nxt: "succ w = Some nxt" by auto
  have c: "chase succ nxt (rev p1 @ [w]) = chase succ (Some w) (rev p1)"
    using nxt by (subst (2) chase.simps) simp
  let ?p = "rev p1 @ w # p2"
  have "rev p1 @ [w] \<noteq> []" by simp
  then obtain a as where cons: "rev p1 @ [w] = a # as" by (cases "rev p1 @ [w]") auto
  have "last (a # as) = w" unfolding cons[symmetric] by simp
  then have bp: "build_path pred succ w = Some (Inr ?p)"
    using p1(1) nxt c p2(1) cons by (simp add: build_path_def Let_def del: last.simps)
  have "walk gr (rev (rev (w # p2)))" by (rule walk_rev[OF S p2(4)])
  then have w2: "walk gr (w # p2)" by simp
  have "walk gr ((rev p1 @ [w]) @ p2)"
    by (rule walk_join[OF _ w2]) (use p1(4) in simp_all)
  then have wp: "walk gr ?p" by simp
  have hp: "hd ?p = s" using p1(2) by (cases "rev p1") (auto simp: last_rev hd_rev split: if_splits)
  have lp: "last ?p = t" using p2(2) by simp
  have "hops ?p = \<delta>f w + \<delta>r w" using p1(3) p2(3) by (simp add: hops_def)
  with mn have "\<forall>q. walk gr q \<longrightarrow> hd q = s \<longrightarrow> last q = t \<longrightarrow> hops ?p \<le> hops q" by simp
  with bp wp hp lp show ?thesis by blast
qed

lemma bidir_inv_init:
  "s \<noteq> t \<Longrightarrow> bidir_inv gr s t [s \<mapsto> None] [t \<mapsto> None] [s] [t] (\<lambda>_. 0) (\<lambda>_. 0) 0 0"
  using layered_init[of gr s] layered_init[of gr t] tree_ok_init[of gr s] tree_ok_init[of gr t]
  by (simp add: bidir_inv_def)

text \<open>
  The search is correct on a graph with symmetric adjacency: between two
  nodes of the graph it returns a walk with the least number of hops when they
  are reachable, and the no-path error when they are not.
\<close>

lemma shortest_path_connected:
  assumes S: "undirected gr" and n: "has_node gr s" "has_node gr t" and c: "reachable gr s t"
  shows "\<exists>p. shortest_path gr s t = Some (Inr p) \<and> walk gr p \<and> hd p = s \<and> last p = t
             \<and> (\<forall>q. walk gr q \<longrightarrow> hd q = s \<longrightarrow> last q = t \<longrightarrow> hops p \<le> hops q)"
proof (cases "t = s")
  case True
  have "shortest_path gr s t = Some (Inr [s])" using True n shortest_path_self by simp
  moreover have "\<forall>q. walk gr q \<longrightarrow> hd q = s \<longrightarrow> last q = t \<longrightarrow> hops [s] \<le> hops q"
    by (simp add: hops_def)
  ultimately show ?thesis using True by auto
next
  case False
  then have "s \<noteq> t" by simp
  note R = bidir_loop_correct[OF S bidir_inv_init[OF this, of gr]]
  show ?thesis
  proof (cases "bidir_loop gr [s \<mapsto> None] [t \<mapsto> None] [s] [t]")
    case (Inl e)
    with R c show ?thesis by simp
  next
    case (Inr res)
    obtain pred succ w where r: "res = (pred, succ, w)" by (cases res)
    with Inr R have "meet_ok gr s t pred succ w" by simp
    from build_path_correct[OF S this] obtain p where
      p: "build_path pred succ w = Some (Inr p)" "walk gr p" "hd p = s" "last p = t"
         "\<forall>q. walk gr q \<longrightarrow> hd q = s \<longrightarrow> last q = t \<longrightarrow> hops p \<le> hops q" by blast
    have "shortest_path gr s t = Some (Inr p)"
      using False n Inr r p(1)
      by (simp add: shortest_path_def bidirectional_shortest_path_def bidirectional_pred_succ_def)
    with p show ?thesis by blast
  qed
qed

lemma shortest_path_disconnected:
  assumes S: "undirected gr" and n: "has_node gr s" "has_node gr t" and c: "\<not> reachable gr s t"
  shows "shortest_path gr s t = Some (Inl NetworkXNoPath)"
proof -
  have "t \<noteq> s"
  proof
    assume "t = s"
    then have "walk gr [s] \<and> hd [s] = s \<and> last [s] = t" by simp
    with c show False unfolding reachable_def by blast
  qed
  then have "s \<noteq> t" by simp
  note R = bidir_loop_correct[OF S bidir_inv_init[OF this, of gr]]
  show ?thesis
  proof (cases "bidir_loop gr [s \<mapsto> None] [t \<mapsto> None] [s] [t]")
    case (Inl e)
    with R have "e = NetworkXNoPath" by simp
    with Inl \<open>t \<noteq> s\<close> n show ?thesis
      by (simp add: shortest_path_def bidirectional_shortest_path_def bidirectional_pred_succ_def)
  next
    case (Inr res)
    obtain pred succ w where r: "res = (pred, succ, w)" by (cases res)
    with Inr R have "meet_ok gr s t pred succ w" by simp
    from build_path_correct[OF S this] obtain p where
      "walk gr p" "hd p = s" "last p = t" by blast
    with c show ?thesis unfolding reachable_def by blast
  qed
qed

section \<open>Graphs made by the builder\<close>

lemma has_node_add_node: "has_node (add_node gr n) x = (has_node gr x \<or> x = n)"
  by (auto simp: add_node_def has_node_def)

lemma adj_add_node: "adj (add_node gr n) x = adj gr x"
proof (cases "has_node gr n")
  case True
  then show ?thesis by (simp add: add_node_def)
next
  case False
  then have "map_of gr n = None" by (simp add: has_node_def map_of_eq_None_iff)
  then show ?thesis
    by (auto simp: add_node_def adj_def map_add_def split: option.splits)
qed

lemma has_node_add_nbr: "has_node (add_nbr gr u v) x = has_node gr x"
  by (induction gr) (auto simp: add_nbr_def has_node_def)

lemma set_adj_add_nbr:
  "set (adj (add_nbr gr u v) x) =
     (if x = u \<and> has_node gr u then insert v (set (adj gr u)) else set (adj gr x))"
proof (induction gr)
  case Nil
  then show ?case by (simp add: add_nbr_def adj_def has_node_def)
next
  case (Cons e gr)
  obtain k ws where e: "e = (k, ws)" by (cases e)
  have step: "add_nbr (e # gr) u v =
      (if k = u then (k, if v \<in> set ws then ws else ws @ [v]) else (k, ws)) # add_nbr gr u v"
    by (simp add: add_nbr_def e)
  show ?case
  proof (cases "x = k")
    case True
    then show ?thesis using e step by (auto simp: adj_def has_node_def)
  next
    case False
    then have a: "adj (add_nbr (e # gr) u v) x = adj (add_nbr gr u v) x"
      and b: "adj (e # gr) x = adj gr x"
      using e step by (auto simp: adj_def)
    show ?thesis
    proof (cases "x = u")
      case True
      with False have "has_node (e # gr) u = has_node gr u" using e by (auto simp: has_node_def)
      with a b Cons.IH True show ?thesis by simp
    next
      case False
      with a b Cons.IH show ?thesis by simp
    qed
  qed
qed

lemma has_node_add_edge: "has_node (add_edge gr u v) x = (has_node gr x \<or> x = u \<or> x = v)"
  by (auto simp: add_edge_def has_node_add_nbr has_node_add_node)

lemma set_adj_add_edge:
  "set (adj (add_edge gr u v) x) =
     set (adj gr x) \<union> (if x = u then {v} else {}) \<union> (if x = v then {u} else {})"
  by (auto simp: add_edge_def set_adj_add_nbr has_node_add_nbr has_node_add_node adj_add_node)

lemma undirected_add_edge: "undirected gr \<Longrightarrow> undirected (add_edge gr u v)"
  unfolding undirected_def set_adj_add_edge by auto

lemma built_empty: "built empty_graph"
  by (simp add: built_def empty_graph_def undirected_def adj_def)

lemma built_add_cast:
  assumes "built mg" "title \<in> movie_titles mg"
  shows "built (add_cast title i mg) \<and> title \<in> movie_titles (add_cast title i mg)"
  using assms unfolding built_def add_cast_def
  by (auto simp: set_adj_add_edge undirected_add_edge split: if_splits)

lemma built_fold_add_cast:
  "built mg \<Longrightarrow> title \<in> movie_titles mg \<Longrightarrow> built (fold (add_cast title) cast mg)"
proof (induction cast arbitrary: mg)
  case Nil
  then show ?case by simp
next
  case (Cons i cast)
  from built_add_cast[OF Cons.prems] Cons.IH show ?case by simp
qed

lemma built_add_title:
  "built mg \<Longrightarrow> built (mg\<lparr>movie_titles := insert title (movie_titles mg)\<rparr>)"
  unfolding built_def by auto

lemma built_add_line: "built mg \<Longrightarrow> built (add_line mg line)"
  unfolding add_line_def
  by (auto split: list.splits intro!: built_fold_add_cast built_add_title)

lemma built_foldl: "built mg \<Longrightarrow> built (foldl add_line mg lines)"
  by (induction lines arbitrary: mg) (auto simp: built_add_line)

lemma built_init: "built (init lines)"
  unfolding init_def by (rule built_foldl[OF built_empty])

lemma undirected_init: "undirected (G (init lines))"
  using built_init by (simp add: built_def)

section \<open>Correctness of the distance search\<close>

lemma layered_dist:
  assumes L: "layered gr r V \<delta> F d" and v: "v \<in> V"
  shows "\<delta> v = distance gr r v"
proof -
  from layered_walk[OF L v] have ex: "\<exists>p. walk gr p \<and> hd p = r \<and> last p = v \<and> hops p = \<delta> v" .
  have "(LEAST n. \<exists>p. walk gr p \<and> hd p = r \<and> last p = v \<and> hops p = n) = \<delta> v"
  proof (rule Least_equality)
    show "\<exists>p. walk gr p \<and> hd p = r \<and> last p = v \<and> hops p = \<delta> v" by (rule ex)
  next
    fix n assume "\<exists>p. walk gr p \<and> hd p = r \<and> last p = v \<and> hops p = n"
    then obtain p where p: "walk gr p" "hd p = r" "last p = v" "hops p = n" by blast
    from layered_least[OF L _ p(1,2)] v p(3,4) show "\<delta> v \<le> n" by simp
  qed
  then show ?thesis by (simp add: distance_def)
qed

lemma layered_reach:
  assumes L: "layered gr r V \<delta> {} d"
  shows "V = {v. reachable gr r v}"
proof (intro set_eqI iffI)
  fix v assume "v \<in> V"
  from layered_walk[OF L this] show "v \<in> {v. reachable gr r v}"
    unfolding reachable_def by blast
next
  fix v assume "v \<in> {v. reachable gr r v}"
  then obtain p where "walk gr p" "hd p = r" "last p = v" unfolding reachable_def by blast
  from layered_closure[OF L this(1,2)] this(3) show "v \<in> V" by simp
qed

lemma sssp_inv_step:
  assumes I: "sssp_inv gr t seen nextlevel level out \<delta>"
    and V: "visit_level gr seen [] out (Suc level) nextlevel = (seen', nextlevel', out')"
  shows "sssp_inv gr t seen' nextlevel' (Suc level) out' (\<lambda>x. if x \<in> seen then \<delta> x else Suc level)"
proof -
  from I have L: "layered gr t seen \<delta> (set nextlevel) level"
    and dst: "distinct (map fst out)" and so: "set out = (\<lambda>v. (v, \<delta> v)) ` seen"
    by (simp_all add: sssp_inv_def)
  from visit_level_result[OF V] obtain new where
    s: "seen' = seen \<union> nbrs_of gr nextlevel" and n0: "nextlevel' = [] @ new"
    and o: "out' = out @ map (\<lambda>w. (w, Suc level)) new"
    and n1: "set new = nbrs_of gr nextlevel - seen" and dn: "distinct new" by blast
  let ?N = "nbrs_of gr nextlevel - seen"
  let ?\<delta> = "\<lambda>x. if x \<in> seen then \<delta> x else Suc level"
  have N: "?N = (\<Union>v \<in> set nextlevel. set (adj gr v)) - seen" by (simp add: nbrs_of_def)
  have s': "seen' = seen \<union> ?N" using s by blast
  have f': "set nextlevel' = ?N" using n0 n1 by simp
  have L': "layered gr t seen' ?\<delta> (set nextlevel') (Suc level)"
    using layered_step[OF L N] unfolding s' f' .
  have fo: "fst ` set out = seen" unfolding so by force
  have "map fst (map (\<lambda>w. (w, Suc level)) new) = new" by (simp add: comp_def)
  then have d': "distinct (map fst out')"
    unfolding o using dst dn fo n1 by auto
  have a: "(\<lambda>v. (v, \<delta> v)) ` seen = (\<lambda>v. (v, ?\<delta> v)) ` seen"
    by (intro image_cong) auto
  have b: "(\<lambda>w. (w, Suc level)) ` ?N = (\<lambda>v. (v, ?\<delta> v)) ` ?N"
    by (intro image_cong) auto
  have "set out' = set out \<union> (\<lambda>w. (w, Suc level)) ` set new" unfolding o by simp
  then have e: "set out' = (\<lambda>v. (v, \<delta> v)) ` seen \<union> (\<lambda>w. (w, Suc level)) ` ?N"
    unfolding so n1 .
  have "set out' = (\<lambda>v. (v, ?\<delta> v)) ` seen'"
    unfolding e s' image_Un a b by (rule refl)
  with L' d' show ?thesis by (simp add: sssp_inv_def)
qed

lemma sssp_loop_correct:
  "sssp_inv gr t seen nextlevel level out \<delta> \<Longrightarrow>
   distinct (map fst (sssp_loop gr seen nextlevel level out)) \<and>
   set (sssp_loop gr seen nextlevel level out) = (\<lambda>v. (v, distance gr t v)) ` {v. reachable gr t v}"
proof (induction gr seen nextlevel level out arbitrary: \<delta> rule: sssp_loop.induct)
  case (1 gr seen nextlevel level out)
  note I = "1.prems"
  show ?case
  proof (cases "nextlevel = []")
    case True
    then have r: "sssp_loop gr seen nextlevel level out = out" by (subst sssp_loop.simps) simp
    from I True have L: "layered gr t seen \<delta> {} level"
      and dst: "distinct (map fst out)" and so: "set out = (\<lambda>v. (v, \<delta> v)) ` seen"
      by (simp_all add: sssp_inv_def)
    have "(\<lambda>v. (v, \<delta> v)) ` seen = (\<lambda>v. (v, distance gr t v)) ` seen"
      using layered_dist[OF L] by (intro image_cong) auto
    with so layered_reach[OF L] dst r show ?thesis by simp
  next
    case False
    obtain seen' nextlevel' out' where
      V: "visit_level gr seen [] out (level + 1) nextlevel = (seen', nextlevel', out')"
      by (cases "visit_level gr seen [] out (level + 1) nextlevel") auto
    then have V': "visit_level gr seen [] out (Suc level) nextlevel = (seen', nextlevel', out')"
      by simp
    have r: "sssp_loop gr seen nextlevel level out = sssp_loop gr seen' nextlevel' (level + 1) out'"
      using False V by (subst sssp_loop.simps) simp
    from sssp_inv_step[OF I V'] have
      "sssp_inv gr t seen' nextlevel' (level + 1) out' (\<lambda>x. if x \<in> seen then \<delta> x else Suc level)"
      by simp
    from "1.IH"[OF False V[symmetric] refl this] r show ?thesis by simp
  qed
qed

lemma sssp_inv_init: "sssp_inv gr t (set [t]) [t] 0 (map (\<lambda>v. (v, 0)) [t]) (\<lambda>_. 0)"
  using layered_init[of gr t] by (simp add: sssp_inv_def)

lemma single_shortest_path_length_correct:
  "distinct (map fst (single_shortest_path_length gr [t])) \<and>
   set (single_shortest_path_length gr [t]) = (\<lambda>v. (v, distance gr t v)) ` {v. reachable gr t v}"
  unfolding single_shortest_path_length_def
  by (rule sssp_loop_correct[OF sssp_inv_init])

section \<open>Movies and actors alternate\<close>

lemma edge_kinds:
  assumes "built mg" "movie_titles mg \<inter> actor_names mg = {}" "v \<in> set (adj (G mg) u)"
  shows "(u \<in> movie_titles mg) \<noteq> (v \<in> movie_titles mg)"
  using assms unfolding built_def by blast

lemma walk_kinds:
  assumes B: "built mg" and D: "movie_titles mg \<inter> actor_names mg = {}"
  shows "walk (G mg) p \<Longrightarrow>
     (last p \<in> movie_titles mg) = ((hd p \<in> movie_titles mg) = odd (length p)) \<and>
     length (filter (\<lambda>i. i \<notin> movie_titles mg) p) =
       (if hd p \<in> movie_titles mg then length p div 2 else (length p + 1) div 2)"
proof (induction "G mg" p rule: walk.induct)
  case 1
  then show ?case by simp
next
  case (2 v)
  then show ?case by simp
next
  case (3 u v p)
  then have e: "v \<in> set (adj (G mg) u)" and w: "walk (G mg) (v # p)" by auto
  from edge_kinds[OF B D e] have k: "(u \<in> movie_titles mg) \<noteq> (v \<in> movie_titles mg)" .
  from 3(1)[OF w] have
    i1: "(last (v # p) \<in> movie_titles mg) = ((v \<in> movie_titles mg) = odd (length (v # p)))"
    and i2: "length (filter (\<lambda>i. i \<notin> movie_titles mg) (v # p)) =
       (if v \<in> movie_titles mg then length (v # p) div 2 else (length (v # p) + 1) div 2)"
    by auto
  have l: "last (u # v # p) = last (v # p)" by simp
  have a: "(last (u # v # p) \<in> movie_titles mg)
           = ((hd (u # v # p) \<in> movie_titles mg) = odd (length (u # v # p)))"
    unfolding l i1 using k by auto
  have b: "length (filter (\<lambda>i. i \<notin> movie_titles mg) (u # v # p)) =
       (if hd (u # v # p) \<in> movie_titles mg then length (u # v # p) div 2
        else (length (u # v # p) + 1) div 2)"
  proof (cases "u \<in> movie_titles mg")
    case True
    with k have "v \<notin> movie_titles mg" by simp
    with True i2 show ?thesis by simp
  next
    case False
    with k have "v \<in> movie_titles mg" by simp
    with False i2 show ?thesis by simp
  qed
  from a b show ?case by blast
qed

text \<open>Between two nodes that are not movie titles a walk has an even number of hops,
  and half of them is the number of its non-movie nodes less one.\<close>

lemma walk_between_actors:
  assumes B: "built mg" and D: "movie_titles mg \<inter> actor_names mg = {}"
    and w: "walk (G mg) p" and h: "hd p \<notin> movie_titles mg" and l: "last p \<notin> movie_titles mg"
  shows "even (hops p)"
    and "int (length (filter (\<lambda>i. i \<notin> movie_titles mg) p)) - 1 = int (hops p) div 2"
proof -
  from walk_kinds[OF B D w] h l have o: "odd (length p)"
    and f: "length (filter (\<lambda>i. i \<notin> movie_titles mg) p) = (length p + 1) div 2"
    by auto
  from o show "even (hops p)" by (simp add: hops_def)
  from o obtain k where k: "length p = 2 * k + 1" by (auto elim: oddE)
  with f show "int (length (filter (\<lambda>i. i \<notin> movie_titles mg) p)) - 1 = int (hops p) div 2"
    by (simp add: hops_def)
qed

lemma actor_not_movie:
  "movie_titles mg \<inter> actor_names mg = {} \<Longrightarrow> a \<in> actor_names mg \<Longrightarrow> a \<notin> movie_titles mg"
  by blast

text \<open>Every cast member is a node of the graph.\<close>

lemma has_node_add_cast:
  "has_node (G (add_cast title i mg)) x = (has_node (G mg) x \<or> x = title \<or> x = i)"
  by (simp add: add_cast_def has_node_add_edge)

lemma cast_in_graph_add_cast: "cast_in_graph mg \<Longrightarrow> cast_in_graph (add_cast title i mg)"
  unfolding cast_in_graph_def has_node_add_cast by (auto simp: add_cast_def)

lemma cast_in_graph_fold:
  "cast_in_graph mg \<Longrightarrow> cast_in_graph (fold (add_cast title) cast mg)"
  by (induction cast arbitrary: mg) (auto simp: cast_in_graph_add_cast)

lemma cast_in_graph_add_title:
  "cast_in_graph mg \<Longrightarrow> cast_in_graph (mg\<lparr>movie_titles := insert title (movie_titles mg)\<rparr>)"
  by (simp add: cast_in_graph_def)

lemma cast_in_graph_add_line: "cast_in_graph mg \<Longrightarrow> cast_in_graph (add_line mg line)"
  unfolding add_line_def
  by (auto split: list.splits intro!: cast_in_graph_fold cast_in_graph_add_title)

lemma cast_in_graph_foldl: "cast_in_graph mg \<Longrightarrow> cast_in_graph (foldl add_line mg lines)"
  by (induction lines arbitrary: mg) (auto simp: cast_in_graph_add_line)

lemma actor_has_node: "a \<in> actor_names (init lines) \<Longrightarrow> has_node (G (init lines)) a"
proof -
  have "cast_in_graph empty_graph" by (simp add: cast_in_graph_def empty_graph_def)
  then have "cast_in_graph (init lines)" unfolding init_def by (rule cast_in_graph_foldl)
  then show "a \<in> actor_names (init lines) \<Longrightarrow> has_node (G (init lines)) a"
    by (simp add: cast_in_graph_def)
qed

text \<open>The query on a built graph, in terms of walks.\<close>

lemma path_to_actor_reachable:
  assumes n: "has_node (G (init lines)) s" "has_node (G (init lines)) t"
    and c: "reachable (G (init lines)) s t"
  shows "\<exists>p. path_to_actor (init lines) s t =
               Some (Inr (p, int (length (filter (\<lambda>i. i \<notin> movie_titles (init lines)) p)) - 1))
             \<and> walk (G (init lines)) p \<and> hd p = s \<and> last p = t
             \<and> (\<forall>q. walk (G (init lines)) q \<longrightarrow> hd q = s \<longrightarrow> last q = t \<longrightarrow> hops p \<le> hops q)"
proof -
  from shortest_path_connected[OF undirected_init n c] obtain p where
    p: "shortest_path (G (init lines)) s t = Some (Inr p)" "walk (G (init lines)) p"
       "hd p = s" "last p = t"
       "\<forall>q. walk (G (init lines)) q \<longrightarrow> hd q = s \<longrightarrow> last q = t \<longrightarrow> hops p \<le> hops q"
    by blast
  from p(1) have "path_to_actor (init lines) s t =
               Some (Inr (p, int (length (filter (\<lambda>i. i \<notin> movie_titles (init lines)) p)) - 1))"
    by (simp add: path_to_actor_def)
  with p show ?thesis by blast
qed

lemma path_to_actor_unreachable:
  assumes n: "has_node (G (init lines)) s" "has_node (G (init lines)) t"
    and c: "\<not> reachable (G (init lines)) s t"
  shows "path_to_actor (init lines) s t = Some (Inl NetworkXNoPath)"
  using shortest_path_disconnected[OF undirected_init n c] by (simp add: path_to_actor_def)

lemma path_to_actor_result:
  assumes r: "path_to_actor (init lines) s t = Some (Inr (p, d))"
  shows "has_node (G (init lines)) s \<and> has_node (G (init lines)) t
         \<and> reachable (G (init lines)) s t"
proof -
  have n: "has_node (G (init lines)) s \<and> has_node (G (init lines)) t"
  proof (rule ccontr)
    assume "\<not> ?thesis"
    then have "path_to_actor (init lines) s t = Some (Inl NodeNotFound)"
      by (auto simp: path_to_actor_def shortest_path_def bidirectional_shortest_path_def)
    with r show False by simp
  qed
  have "reachable (G (init lines)) s t"
  proof (rule ccontr)
    assume "\<not> ?thesis"
    with n path_to_actor_unreachable r show False by simp
  qed
  with n show ?thesis by simp
qed

section \<open>The path query on built graphs\<close>

text \<open>
  Claim C1, as the code has it. The query returns the shortest path as the
  search found it, movie nodes included: a walk of the graph from the source to
  the target. The degree is the number of its nodes that are not movie titles,
  less one.
\<close>

theorem path_to_actor_full_path:
  "path_to_actor (init lines) source target = Some (Inr (path, degree)) \<Longrightarrow>
   walk (G (init lines)) path \<and> hd path = source \<and> last path = target \<and>
   degree = int (length (filter (\<lambda>i. i \<notin> movie_titles (init lines)) path)) - 1"
proof -
  assume r: "path_to_actor (init lines) source target = Some (Inr (path, degree))"
  from path_to_actor_result[OF r] have n: "has_node (G (init lines)) source"
    "has_node (G (init lines)) target" and c: "reachable (G (init lines)) source target"
    by auto
  from path_to_actor_reachable[OF n c] r show ?thesis by auto
qed

theorem path_to_actor_full_path_witness:
  "path_to_actor (init [''Movie A/Alice/Bob'']) ''Alice'' ''Bob''
     = Some (Inr ([''Alice'', ''Movie A'', ''Bob''], 1))
   \<and> walk (G (init [''Movie A/Alice/Bob''])) [''Alice'', ''Movie A'', ''Bob'']
   \<and> (1 :: int) = int (length (filter (\<lambda>i. i \<notin> movie_titles (init [''Movie A/Alice/Bob'']))
                                 [''Alice'', ''Movie A'', ''Bob''])) - 1"
proof -
  have h: "path_to_actor (init [''Movie A/Alice/Bob'']) ''Alice'' ''Bob''
     = Some (Inr ([''Alice'', ''Movie A'', ''Bob''], 1))" by code_simp
  from h path_to_actor_full_path [OF h] show ?thesis by simp
qed

text \<open>
  The claim as stated fails on its own scenario: the movie node stays in the
  returned path.
\<close>

theorem path_to_actor_scenario_counterexample:
  "path_to_actor (init [''Movie A/Alice/Bob'']) ''Alice'' ''Bob''
     = Some (Inr ([''Alice'', ''Movie A'', ''Bob''], 1))
   \<and> path_to_actor (init [''Movie A/Alice/Bob'']) ''Alice'' ''Bob''
     \<noteq> Some (Inr ([''Alice'', ''Bob''], 1))
   \<and> ''Movie A'' \<in> movie_titles (init [''Movie A/Alice/Bob''])"
  by code_simp

text \<open>
  Claim C3, as the code has it. In a graph made by the builder in which no
  cast member bears the name of a movie, every walk between two actor nodes has
  an even number of raw hops.
\<close>

theorem actor_walk_even_hops:
  "movie_titles (init lines) \<inter> actor_names (init lines) = {} \<Longrightarrow>
   walk (G (init lines)) p \<Longrightarrow>
   hd p \<in> actor_names (init lines) \<Longrightarrow> last p \<in> actor_names (init lines) \<Longrightarrow>
   even (hops p)"
  using walk_between_actors(1)[OF built_init, of lines p] by blast

theorem actor_walk_even_hops_witness:
  "movie_titles (init [''Movie A/Alice/Bob'']) \<inter> actor_names (init [''Movie A/Alice/Bob'']) = {}
   \<and> walk (G (init [''Movie A/Alice/Bob''])) [''Alice'', ''Movie A'', ''Bob'']
   \<and> ''Alice'' \<in> actor_names (init [''Movie A/Alice/Bob''])
   \<and> ''Bob'' \<in> actor_names (init [''Movie A/Alice/Bob''])
   \<and> even (hops [''Alice'', ''Movie A'', ''Bob''])"
proof -
  have h1: "movie_titles (init [''Movie A/Alice/Bob''])
            \<inter> actor_names (init [''Movie A/Alice/Bob'']) = {}" by code_simp
  have h2: "walk (G (init [''Movie A/Alice/Bob''])) [''Alice'', ''Movie A'', ''Bob'']"
    by code_simp
  have h3: "hd [''Alice'', ''Movie A'', ''Bob''] \<in> actor_names (init [''Movie A/Alice/Bob''])"
    by code_simp
  have h4: "last [''Alice'', ''Movie A'', ''Bob''] \<in> actor_names (init [''Movie A/Alice/Bob''])"
    by code_simp
  from h1 h2 h3 h4 actor_walk_even_hops [OF h1 h2 h3 h4] show ?thesis by simp
qed

theorem actor_walk_odd_counterexample:
  "shortest_path (G (init [''Movie A/Alice/Bob''])) ''Alice'' ''Bob''
     = Some (Inr [''Alice'', ''Movie A'', ''Bob''])
   \<and> walk (G (init [''Movie A/Alice/Bob''])) [''Alice'', ''Movie A'', ''Bob'']
   \<and> ''Alice'' \<in> actor_names (init [''Movie A/Alice/Bob''])
   \<and> ''Bob'' \<in> actor_names (init [''Movie A/Alice/Bob''])
   \<and> ''Alice'' \<noteq> ''Bob''
   \<and> hops [''Alice'', ''Movie A'', ''Bob''] = 2
   \<and> \<not> odd (hops [''Alice'', ''Movie A'', ''Bob''])"
  by code_simp

text \<open>
  Claim C6. If the source and the target are both nodes of the graph and no
  walk joins them, the query fails with the no-path error of the search.
\<close>

theorem path_to_actor_no_path:
  "has_node (G (init lines)) source \<Longrightarrow> has_node (G (init lines)) target \<Longrightarrow>
   \<not> reachable (G (init lines)) source target \<Longrightarrow>
   path_to_actor (init lines) source target = Some (Inl NetworkXNoPath)"
  by (rule path_to_actor_unreachable)

theorem path_to_actor_no_path_witness:
  "has_node (G (init [''M1/A'', ''M2/B''])) ''A'' \<and> has_node (G (init [''M1/A'', ''M2/B''])) ''B''
   \<and> \<not> reachable (G (init [''M1/A'', ''M2/B''])) ''A'' ''B''
   \<and> path_to_actor (init [''M1/A'', ''M2/B'']) ''A'' ''B'' = Some (Inl NetworkXNoPath)"
proof -
  have h1: "has_node (G (init [''M1/A'', ''M2/B''])) ''A''" by code_simp
  have h2: "has_node (G (init [''M1/A'', ''M2/B''])) ''B''" by code_simp
  have e: "path_to_actor (init [''M1/A'', ''M2/B'']) ''A'' ''B'' = Some (Inl NetworkXNoPath)"
    by code_simp
  have h3: "\<not> reachable (G (init [''M1/A'', ''M2/B''])) ''A'' ''B''"
  proof
    assume "reachable (G (init [''M1/A'', ''M2/B''])) ''A'' ''B''"
    from path_to_actor_reachable[OF h1 h2 this] e show False by simp
  qed
  from h1 h2 h3 path_to_actor_no_path [OF h1 h2 h3] show ?thesis by simp
qed

section \<open>Degrees between actors\<close>

lemma reachableI: "walk gr p \<Longrightarrow> hd p = s \<Longrightarrow> last p = t \<Longrightarrow> reachable gr s t"
  unfolding reachable_def by blast

text \<open>The query between two actors of a graph without name collisions.\<close>

lemma actor_query:
  assumes D: "movie_titles (init lines) \<inter> actor_names (init lines) = {}"
    and a: "a \<in> actor_names (init lines)" and b: "b \<in> actor_names (init lines)"
    and c: "reachable (G (init lines)) a b"
  shows "\<exists>p. path_to_actor (init lines) a b = Some (Inr (p, int (hops p) div 2))
             \<and> even (hops p) \<and> walk (G (init lines)) p \<and> hd p = a \<and> last p = b
             \<and> (\<forall>q. walk (G (init lines)) q \<longrightarrow> hd q = a \<longrightarrow> last q = b \<longrightarrow> hops p \<le> hops q)"
proof -
  from path_to_actor_reachable[OF actor_has_node[OF a] actor_has_node[OF b] c] obtain p where
    p: "path_to_actor (init lines) a b =
          Some (Inr (p, int (length (filter (\<lambda>i. i \<notin> movie_titles (init lines)) p)) - 1))"
       "walk (G (init lines)) p" "hd p = a" "last p = b"
       "\<forall>q. walk (G (init lines)) q \<longrightarrow> hd q = a \<longrightarrow> last q = b \<longrightarrow> hops p \<le> hops q"
    by blast
  have h: "hd p \<notin> movie_titles (init lines)" "last p \<notin> movie_titles (init lines)"
    using p(3,4) a b D by auto
  note W = walk_between_actors[OF built_init D p(2) h]
  from p W show ?thesis by auto
qed

text \<open>
  Claim C2, as the code has it. In a graph made by the builder in which no
  cast member bears the name of a movie, the query between two connected actor
  nodes returns a walk with the least number of raw hops; that number is twice
  the degree, and the degree is 0 exactly when source and target are equal.
\<close>

theorem degree_half_of_hops:
  assumes "movie_titles (init lines) \<inter> actor_names (init lines) = {}"
    and "source \<in> actor_names (init lines)" and "target \<in> actor_names (init lines)"
    and "reachable (G (init lines)) source target"
  shows "\<exists>path degree.
           path_to_actor (init lines) source target = Some (Inr (path, degree))
           \<and> walk (G (init lines)) path \<and> hd path = source \<and> last path = target
           \<and> (\<forall>q. walk (G (init lines)) q \<longrightarrow> hd q = source \<longrightarrow> last q = target
                    \<longrightarrow> hops path \<le> hops q)
           \<and> int (hops path) = 2 * degree \<and> 0 \<le> degree
           \<and> (degree = 0 \<longleftrightarrow> source = target)"
proof -
  from actor_query[OF assms] obtain p where
    p: "path_to_actor (init lines) source target = Some (Inr (p, int (hops p) div 2))"
       "even (hops p)" "walk (G (init lines)) p" "hd p = source" "last p = target"
       "\<forall>q. walk (G (init lines)) q \<longrightarrow> hd q = source \<longrightarrow> last q = target \<longrightarrow> hops p \<le> hops q"
    by blast
  have e: "int (hops p) = 2 * (int (hops p) div 2)" using p(2) by presburger
  have z: "(int (hops p) div 2 = 0) = (source = target)"
  proof
    assume "int (hops p) div 2 = 0"
    with e have "hops p = 0" by simp
    moreover have "p \<noteq> []" using p(3) by (auto dest: walk_nonempty)
    ultimately have "length p = 1" by (cases p) (auto simp: hops_def)
    then obtain x where "p = [x]" by (cases p) auto
    with p(4,5) show "source = target" by simp
  next
    assume "source = target"
    then have "walk (G (init lines)) [source] \<and> hd [source] = source \<and> last [source] = target"
      by simp
    with p(6) have "hops p \<le> hops [source]" by blast
    then show "int (hops p) div 2 = 0" by (simp add: hops_def)
  qed
  have "0 \<le> int (hops p) div 2" by simp
  with p e z show ?thesis by blast
qed

theorem degree_half_of_hops_witness:
  "movie_titles (init [''Movie A/Alice/Bob'']) \<inter> actor_names (init [''Movie A/Alice/Bob'']) = {}
   \<and> ''Alice'' \<in> actor_names (init [''Movie A/Alice/Bob''])
   \<and> ''Bob'' \<in> actor_names (init [''Movie A/Alice/Bob''])
   \<and> walk (G (init [''Movie A/Alice/Bob''])) [''Alice'', ''Movie A'', ''Bob'']
   \<and> path_to_actor (init [''Movie A/Alice/Bob'']) ''Alice'' ''Bob''
       = Some (Inr ([''Alice'', ''Movie A'', ''Bob''], 1))
   \<and> int (hops [''Alice'', ''Movie A'', ''Bob'']) = 2 * 1"
proof -
  have h1: "movie_titles (init [''Movie A/Alice/Bob''])
            \<inter> actor_names (init [''Movie A/Alice/Bob'']) = {}" by code_simp
  have h2: "''Alice'' \<in> actor_names (init [''Movie A/Alice/Bob''])" by code_simp
  have h3: "''Bob'' \<in> actor_names (init [''Movie A/Alice/Bob''])" by code_simp
  have w: "walk (G (init [''Movie A/Alice/Bob''])) [''Alice'', ''Movie A'', ''Bob'']"
    by code_simp
  have h4: "reachable (G (init [''Movie A/Alice/Bob''])) ''Alice'' ''Bob''"
    by (rule reachableI[OF w]) simp_all
  have e: "path_to_actor (init [''Movie A/Alice/Bob'']) ''Alice'' ''Bob''
       = Some (Inr ([''Alice'', ''Movie A'', ''Bob''], 1))" by code_simp
  from degree_half_of_hops [OF h1 h2 h3 h4] obtain path degree where
    "path_to_actor (init [''Movie A/Alice/Bob'']) ''Alice'' ''Bob'' = Some (Inr (path, degree))"
    "int (hops path) = 2 * degree" by blast
  with e have "int (hops [''Alice'', ''Movie A'', ''Bob'']) = 2 * 1" by simp
  with h1 h2 h3 w e show ?thesis by simp
qed

text \<open>
  The claim as stated asks only the two endpoints not to be movie titles. In
  the dataset \<open>M1/A/M2\<close>, \<open>M2/M3\<close>, \<open>M3/B\<close> the cast members \<open>M2\<close> and \<open>M3\<close>
  are movie titles too: the shortest path from \<open>A\<close> to \<open>B\<close> has 4 raw hops and
  the degree is 1.
\<close>

theorem degree_half_of_hops_counterexample:
  "''A'' \<in> actor_names (init [''M1/A/M2'', ''M2/M3'', ''M3/B''])
   \<and> ''B'' \<in> actor_names (init [''M1/A/M2'', ''M2/M3'', ''M3/B''])
   \<and> ''A'' \<notin> movie_titles (init [''M1/A/M2'', ''M2/M3'', ''M3/B''])
   \<and> ''B'' \<notin> movie_titles (init [''M1/A/M2'', ''M2/M3'', ''M3/B''])
   \<and> path_to_actor (init [''M1/A/M2'', ''M2/M3'', ''M3/B'']) ''A'' ''B''
       = Some (Inr ([''A'', ''M1'', ''M2'', ''M3'', ''B''], 1))
   \<and> hops [''A'', ''M1'', ''M2'', ''M3'', ''B''] = 4
   \<and> (1 :: int) \<noteq> int (hops [''A'', ''M1'', ''M2'', ''M3'', ''B'']) div 2"
  by code_simp

text \<open>
  Claim C8, as the code has it. In a graph made by the builder in which no
  cast member bears the name of a movie, the queries from \<open>a\<close> to \<open>b\<close> and from
  \<open>b\<close> to \<open>a\<close> between two connected actor nodes return the same degree.
\<close>

theorem degree_symmetric:
  assumes D: "movie_titles (init lines) \<inter> actor_names (init lines) = {}"
    and a: "a \<in> actor_names (init lines)" and b: "b \<in> actor_names (init lines)"
    and c: "reachable (G (init lines)) a b"
  shows "\<exists>p q d. path_to_actor (init lines) a b = Some (Inr (p, d))
                 \<and> path_to_actor (init lines) b a = Some (Inr (q, d))"
proof -
  have c': "reachable (G (init lines)) b a" by (rule reachable_sym[OF undirected_init c])
  from actor_query[OF D a b c] obtain p where
    p: "path_to_actor (init lines) a b = Some (Inr (p, int (hops p) div 2))"
       "walk (G (init lines)) p" "hd p = a" "last p = b"
       "\<forall>q. walk (G (init lines)) q \<longrightarrow> hd q = a \<longrightarrow> last q = b \<longrightarrow> hops p \<le> hops q"
    by blast
  from actor_query[OF D b a c'] obtain q where
    q: "path_to_actor (init lines) b a = Some (Inr (q, int (hops q) div 2))"
       "walk (G (init lines)) q" "hd q = b" "last q = a"
       "\<forall>p. walk (G (init lines)) p \<longrightarrow> hd p = b \<longrightarrow> last p = a \<longrightarrow> hops q \<le> hops p"
    by blast
  have pn: "p \<noteq> []" and qn: "q \<noteq> []" using p(2) q(2) by (auto dest: walk_nonempty)
  have "walk (G (init lines)) (rev q)" by (rule walk_rev[OF undirected_init q(2)])
  moreover have "hd (rev q) = a" "last (rev q) = b" using q(3,4) qn by (simp_all add: hd_rev last_rev)
  ultimately have "hops p \<le> hops (rev q)" using p(5) by blast
  then have 1: "hops p \<le> hops q" by (simp add: hops_def)
  have "walk (G (init lines)) (rev p)" by (rule walk_rev[OF undirected_init p(2)])
  moreover have "hd (rev p) = b" "last (rev p) = a" using p(3,4) pn by (simp_all add: hd_rev last_rev)
  ultimately have "hops q \<le> hops (rev p)" using q(5) by blast
  then have 2: "hops q \<le> hops p" by (simp add: hops_def)
  from 1 2 have "hops p = hops q" by simp
  with p(1) q(1) show ?thesis by simp
qed

theorem degree_symmetric_witness:
  "movie_titles (init [''Movie A/Alice/Bob'']) \<inter> actor_names (init [''Movie A/Alice/Bob'']) = {}
   \<and> ''Alice'' \<in> actor_names (init [''Movie A/Alice/Bob''])
   \<and> ''Bob'' \<in> actor_names (init [''Movie A/Alice/Bob''])
   \<and> walk (G (init [''Movie A/Alice/Bob''])) [''Alice'', ''Movie A'', ''Bob'']
   \<and> path_to_actor (init [''Movie A/Alice/Bob'']) ''Alice'' ''Bob''
       = Some (Inr ([''Alice'', ''Movie A'', ''Bob''], 1))
   \<and> path_to_actor (init [''Movie A/Alice/Bob'']) ''Bob'' ''Alice''
       = Some (Inr ([''Bob'', ''Movie A'', ''Alice''], 1))"
proof -
  have h1: "movie_titles (init [''Movie A/Alice/Bob''])
            \<inter> actor_names (init [''Movie A/Alice/Bob'']) = {}" by code_simp
  have h2: "''Alice'' \<in> actor_names (init [''Movie A/Alice/Bob''])" by code_simp
  have h3: "''Bob'' \<in> actor_names (init [''Movie A/Alice/Bob''])" by code_simp
  have w: "walk (G (init [''Movie A/Alice/Bob''])) [''Alice'', ''Movie A'', ''Bob'']"
    by code_simp
  have h4: "reachable (G (init [''Movie A/Alice/Bob''])) ''Alice'' ''Bob''"
    by (rule reachableI[OF w]) simp_all
  have e: "path_to_actor (init [''Movie A/Alice/Bob'']) ''Alice'' ''Bob''
       = Some (Inr ([''Alice'', ''Movie A'', ''Bob''], 1))" by code_simp
  have e': "\<exists>q. path_to_actor (init [''Movie A/Alice/Bob'']) ''Bob'' ''Alice''
       = Some (Inr (q, 1))"
    using degree_symmetric [OF h1 h2 h3 h4] e by auto
  have "path_to_actor (init [''Movie A/Alice/Bob'']) ''Bob'' ''Alice''
       = Some (Inr ([''Bob'', ''Movie A'', ''Alice''], 1))" by code_simp
  with h1 h2 h3 w e e' show ?thesis by simp
qed

text \<open>
  The claim as stated fails when a cast member bears the name of a movie. In
  the dataset below \<open>Y\<close> is both a cast member and a movie title; the search
  from \<open>a\<close> meets the shortest path through \<open>X\<close> first, the search from \<open>b\<close>
  the equally short one through \<open>Y\<close>, and the two degrees differ.
\<close>

theorem degree_symmetric_counterexample:
  "''a'' \<in> actor_names (init [''M1/a/X'', ''M3/a/Y'', ''M4/b/Y'', ''M2/b/X'', ''Y/Z''])
   \<and> ''b'' \<in> actor_names (init [''M1/a/X'', ''M3/a/Y'', ''M4/b/Y'', ''M2/b/X'', ''Y/Z''])
   \<and> path_to_actor (init [''M1/a/X'', ''M3/a/Y'', ''M4/b/Y'', ''M2/b/X'', ''Y/Z'']) ''a'' ''b''
       = Some (Inr ([''a'', ''M1'', ''X'', ''M2'', ''b''], 2))
   \<and> path_to_actor (init [''M1/a/X'', ''M3/a/Y'', ''M4/b/Y'', ''M2/b/X'', ''Y/Z'']) ''b'' ''a''
       = Some (Inr ([''b'', ''M4'', ''Y'', ''M3'', ''a''], 1))"
  by code_simp

section \<open>The dictionary, the values and the histogram\<close>

lemma update_fresh: "k \<notin> fst ` set d \<Longrightarrow> AList.update k v d = d @ [(k, v)]"
  by (induction d) auto

lemma dict_foldl:
  "distinct (map fst (d @ ps)) \<Longrightarrow>
   foldl (\<lambda>d (k, v). AList.update k v d) d ps = d @ ps"
proof (induction ps arbitrary: d)
  case Nil
  then show ?case by simp
next
  case (Cons e ps)
  obtain k v where e: "e = (k, v)" by (cases e)
  from Cons.prems e have f: "k \<notin> fst ` set d" by auto
  from Cons.prems e have "distinct (map fst ((d @ [(k, v)]) @ ps))" by simp
  from Cons.IH[OF this] show ?case using e f by (simp add: update_fresh)
qed

lemma dict_distinct: "distinct (map fst ps) \<Longrightarrow> dict ps = ps"
  unfolding dict_def using dict_foldl[of "[]" ps] by simp

lemma collect_values_keys:
  "\<forall>k \<in> set ks. map_of d k \<noteq> None \<Longrightarrow>
   collect_values d ks acc = Inr (acc @ halves (map (\<lambda>k. the (map_of d k)) ks))"
proof (induction ks arbitrary: acc)
  case Nil
  then show ?case by (simp add: halves_def)
next
  case (Cons k ks)
  then obtain l where l: "map_of d k = Some l" by auto
  from Cons have "collect_values d ks (if l mod 2 = 0 then acc @ [l div 2] else acc) =
     Inr ((if l mod 2 = 0 then acc @ [l div 2] else acc) @ halves (map (\<lambda>k. the (map_of d k)) ks))"
    by simp
  with l show ?case by (simp add: halves_def)
qed

lemma collect_values_dict:
  assumes "distinct (map fst d)"
  shows "collect_values d (map fst d) [] = Inr (halves (map snd d))"
proof -
  have m: "map_of d (fst e) = Some (snd e)" if "e \<in> set d" for e
    using assms that by (cases e) simp
  then have "\<forall>k \<in> set (map fst d). map_of d k \<noteq> None" by auto
  from collect_values_keys[OF this, of "[]"]
  have c: "collect_values d (map fst d) [] = Inr ([] @ halves (map (\<lambda>k. the (map_of d k)) (map fst d)))" .
  have "map (\<lambda>k. the (map_of d k)) (map fst d) = map snd d"
    unfolding map_map by (rule map_cong) (simp_all add: m)
  with c show ?thesis by (simp only: append_Nil)
qed

text \<open>The histogram counts, bucket by bucket.\<close>

lemma bins_nth: "k < 8 \<Longrightarrow> bins ! k = real k - 1 / 2"
  unfolding bins_def by (simp del: upt_Suc)

lemma length_bins: "length bins = 8"
  by (simp add: bins_def del: upt_Suc)

lemma in_bucket:
  assumes "k < 7"
  shows "(bins ! k \<le> real v \<and> (real v < bins ! Suc k \<or> (Suc k = length bins - 1 \<and> real v = bins ! Suc k)))
         = (v = k)"
proof -
  have a: "bins ! k = real k - 1 / 2" "bins ! Suc k = real (Suc k) - 1 / 2"
    using assms by (simp_all add: bins_nth)
  have ne: "real v \<noteq> real (Suc k) - 1 / 2"
  proof
    assume "real v = real (Suc k) - 1 / 2"
    then have "2 * real v = 2 * real k + 1" by simp
    then have "real (2 * v) = real (2 * k + 1)" by simp
    then have "2 * v = 2 * k + 1" by (rule of_nat_eq_iff[THEN iffD1])
    then show False by presburger
  qed
  have "(real k - 1 / 2 \<le> real v) = (k \<le> v)"
  proof
    assume "real k - 1 / 2 \<le> real v"
    then have "real k < real v + 1" by simp
    then have "real k < real (v + 1)" by simp
    then have "k < v + 1" by (rule of_nat_less_iff[THEN iffD1])
    then show "k \<le> v" by simp
  next
    assume "k \<le> v"
    then have "real k \<le> real v" by simp
    then show "real k - 1 / 2 \<le> real v" by simp
  qed
  moreover have "(real v < real (Suc k) - 1 / 2) = (v \<le> k)"
  proof
    assume "real v < real (Suc k) - 1 / 2"
    then have "real v < real (Suc k)" by simp
    then have "v < Suc k" by (rule of_nat_less_iff[THEN iffD1])
    then show "v \<le> k" by simp
  next
    assume "v \<le> k"
    then have "real v \<le> real k" by simp
    then show "real v < real (Suc k) - 1 / 2" by simp
  qed
  ultimately show ?thesis unfolding a using ne by auto
qed

lemma hist_bins:
  "hist (map real vs) bins = map (\<lambda>k. length (filter (\<lambda>v. v = k) vs)) [0..<7]"
proof -
  have "length (filter (\<lambda>x. bins ! k \<le> x \<and>
           (x < bins ! Suc k \<or> (Suc k = length bins - 1 \<and> x = bins ! Suc k))) (map real vs))
        = length (filter (\<lambda>v. v = k) vs)" if "k < 7" for k
  proof -
    have "filter (\<lambda>x. bins ! k \<le> x \<and>
           (x < bins ! Suc k \<or> (Suc k = length bins - 1 \<and> x = bins ! Suc k))) (map real vs)
          = map real (filter (\<lambda>v. v = k) vs)"
      unfolding filter_map comp_def using in_bucket[OF that] by simp
    then show ?thesis by simp
  qed
  then show ?thesis
    unfolding hist_def length_bins by (simp del: upt_Suc)
qed

lemma count_buckets:
  "sum_list (map (\<lambda>k. length (filter (\<lambda>v. v = k) vs)) [0..<n]) = length (filter (\<lambda>v. v < n) vs)"
proof (induction n)
  case 0
  then show ?case by simp
next
  case (Suc n)
  have "length (filter (\<lambda>v. v < Suc n) vs)
        = length (filter (\<lambda>v. v < n) vs) + length (filter (\<lambda>v. v = n) vs)"
    by (induction vs) auto
  with Suc show ?case by simp
qed

lemma sum_hist_bins: "sum_list (hist (map real vs) bins) = length (filter (\<lambda>v. v < 7) vs)"
  unfolding hist_bins by (rule count_buckets)

section \<open>The distance distribution of a node of the graph\<close>

lemma distance_walk:
  assumes "reachable gr s v"
  shows "\<exists>p. walk gr p \<and> hd p = s \<and> last p = v \<and> hops p = distance gr s v"
proof -
  from assms obtain p where "walk gr p \<and> hd p = s \<and> last p = v \<and> hops p = hops p"
    unfolding reachable_def by blast
  then have "\<exists>n p. walk gr p \<and> hd p = s \<and> last p = v \<and> hops p = n" by blast
  then show ?thesis unfolding distance_def by (rule LeastI_ex)
qed

lemma distance_le:
  assumes "walk gr p" "hd p = s" "last p = v"
  shows "distance gr s v \<le> hops p"
  unfolding distance_def by (rule Least_le) (use assms in blast)

lemma reachable_self: "reachable gr t t"
  by (rule reachableI[of gr "[t]"]) simp_all

lemma distance_self: "distance gr t t = 0"
  using distance_le[of gr "[t]" t t] by (simp add: hops_def)

text \<open>The dictionary of lengths and the list \<open>values\<close> of a node of the graph.\<close>

lemma shortest_path_length_eq:
  assumes "has_node gr t"
  shows "shortest_path_length gr t = Inr (single_shortest_path_length gr [t])"
  using assms single_shortest_path_length_correct[of gr t]
  by (simp add: shortest_path_length_def single_source_shortest_path_length_def dict_distinct)

lemma target_in_lengths:
  "map_of (single_shortest_path_length gr [t]) t = Some 0"
proof -
  note C = single_shortest_path_length_correct[of gr t]
  have "(t, distance gr t t) \<in> set (single_shortest_path_length gr [t])"
    using C reachable_self[of gr t] by blast
  then have "(t, 0) \<in> set (single_shortest_path_length gr [t])" by (simp add: distance_self)
  with C show ?thesis by simp
qed

lemma zero_in_halves: "0 \<in> set ls \<Longrightarrow> 0 \<in> set (halves ls)"
  by (auto simp: halves_def intro!: image_eqI[of _ _ 0])

lemma zero_in_values: "0 \<in> set (halves (map snd (single_shortest_path_length gr [t])))"
proof -
  have "(t, 0) \<in> set (single_shortest_path_length gr [t])"
    using target_in_lengths[of gr t] by (rule map_of_SomeD)
  then have "0 \<in> set (map snd (single_shortest_path_length gr [t]))" by force
  then show ?thesis by (rule zero_in_halves)
qed

lemma average_number_eq:
  assumes "has_node (G mg) t"
  shows "average_number mg t =
           Inr (hist (map real (halves (map snd (single_shortest_path_length (G mg) [t])))) bins,
                real (sum_list (halves (map snd (single_shortest_path_length (G mg) [t]))))
                / real (length (halves (map snd (single_shortest_path_length (G mg) [t])))))"
proof -
  let ?out = "single_shortest_path_length (G mg) [t]"
  have d: "distinct (map fst ?out)" using single_shortest_path_length_correct by simp
  have "halves (map snd ?out) \<noteq> []" using zero_in_values[of "G mg" t] by auto
  then show ?thesis
    unfolding average_number_def
    by (simp add: shortest_path_length_eq[OF assms] collect_values_dict[OF d] Let_def)
qed

section \<open>The target is always counted\<close>

text \<open>
  A target is isolated when every node two hops away from it is the target
  itself; then no node is further than one hop away.
\<close>

lemma isolated_distance:
  assumes iso: "\<forall>x \<in> set (adj gr t). \<forall>w \<in> set (adj gr x). w = t"
    and r: "reachable gr t v"
  shows "distance gr t v \<le> 1"
proof (rule ccontr)
  assume "\<not> distance gr t v \<le> 1"
  then have big: "2 \<le> distance gr t v" by simp
  from distance_walk[OF r] obtain p where
    p: "walk gr p" "hd p = t" "last p = v" "hops p = distance gr t v" by blast
  with big have "3 \<le> length p" by (simp add: hops_def)
  then obtain a x w rest where pe: "p = a # x # w # rest"
    by (cases p; cases "tl p"; cases "tl (tl p)") auto
  with p(2) have a: "a = t" by simp
  from p(1) pe a have e1: "x \<in> set (adj gr t)" and e2: "w \<in> set (adj gr x)"
    and w2: "walk gr (w # rest)" by auto
  from iso e1 e2 have "w = t" by blast
  with w2 have "walk gr (w # rest)" "hd (w # rest) = t" by auto
  moreover have "last (w # rest) = v" using p(3) pe by simp
  ultimately have "distance gr t v \<le> hops (w # rest)" by (rule distance_le)
  also have "hops (w # rest) < hops p" using pe by (simp add: hops_def)
  finally show False using p(4) by simp
qed

lemma isolated_values:
  assumes iso: "\<forall>x \<in> set (adj gr t). \<forall>w \<in> set (adj gr x). w = t"
  shows "sum_list (halves (map snd (single_shortest_path_length gr [t]))) = 0"
proof -
  note C = single_shortest_path_length_correct[of gr t]
  have "l \<le> 1" if "l \<in> set (map snd (single_shortest_path_length gr [t]))" for l
  proof -
    from that obtain v where "(v, l) \<in> set (single_shortest_path_length gr [t])" by auto
    with C have "reachable gr t v" "l = distance gr t v" by auto
    with isolated_distance[OF iso] show ?thesis by simp
  qed
  then have "\<forall>h \<in> set (halves (map snd (single_shortest_path_length gr [t]))). h = 0"
    unfolding halves_def by fastforce
  then show ?thesis by (simp add: sum_list_eq_0_iff)
qed

lemma first_bucket: "0 \<in> set vs \<Longrightarrow> 1 \<le> hist (map real vs) bins ! 0"
proof -
  assume "0 \<in> set vs"
  then have "filter (\<lambda>v. v = 0) vs \<noteq> []" by (auto simp: filter_empty_conv)
  then have "1 \<le> length (filter (\<lambda>v. v = 0) vs)" by (cases "filter (\<lambda>v. v = 0) vs") auto
  moreover have "hist (map real vs) bins ! 0 = length (filter (\<lambda>v. v = 0) vs)"
    unfolding hist_bins by (simp del: upt_Suc)
  ultimately show ?thesis by simp
qed

text \<open>
  Claim C9. For every target that is a node of the graph the dictionary of
  lengths holds the target with length 0, so the list of halved even lengths
  holds a 0 and is not empty, the first bucket counts at least one node, and
  the query returns the mean \<open>sum(values)/len(values)\<close> instead of failing on a
  division by zero. When every node two hops away from the target is the target
  itself, the mean is 0.
\<close>

theorem average_number_includes_target:
  assumes "has_node (G mg) target"
  shows "\<exists>all_paths values fig mean.
           shortest_path_length (G mg) target = Inr all_paths
           \<and> map_of all_paths target = Some 0
           \<and> collect_values all_paths (map fst all_paths) [] = Inr values
           \<and> 0 \<in> set values \<and> 1 \<le> length values
           \<and> average_number mg target = Inr (fig, mean)
           \<and> 1 \<le> fig ! 0
           \<and> mean = real (sum_list values) / real (length values)
           \<and> ((\<forall>x \<in> set (adj (G mg) target). \<forall>w \<in> set (adj (G mg) x). w = target)
                \<longrightarrow> mean = 0)"
proof -
  let ?out = "single_shortest_path_length (G mg) [target]"
  let ?vals = "halves (map snd ?out)"
  let ?fig = "hist (map real ?vals) bins"
  let ?mean = "real (sum_list ?vals) / real (length ?vals)"
  have d: "distinct (map fst ?out)" using single_shortest_path_length_correct by simp
  have 1: "shortest_path_length (G mg) target = Inr ?out"
    by (rule shortest_path_length_eq[OF assms])
  have 2: "map_of ?out target = Some 0" by (rule target_in_lengths)
  have 3: "collect_values ?out (map fst ?out) [] = Inr ?vals"
    by (rule collect_values_dict[OF d])
  have 4: "0 \<in> set ?vals" by (rule zero_in_values)
  then have "?vals \<noteq> []" by auto
  then have 5: "1 \<le> length ?vals" by (cases ?vals) auto
  have 6: "average_number mg target = Inr (?fig, ?mean)" by (rule average_number_eq[OF assms])
  have 7: "1 \<le> ?fig ! 0" by (rule first_bucket[OF 4])
  have 8: "(\<forall>x \<in> set (adj (G mg) target). \<forall>w \<in> set (adj (G mg) x). w = target) \<longrightarrow> ?mean = 0"
    using isolated_values[of "G mg" target] by simp
  from 1 2 3 4 5 6 7 8 show ?thesis by blast
qed

lemma upt7: "[0..<7] = [0, 1, 2, 3, 4, 5, 6 :: nat]"
  by code_simp

theorem average_number_includes_target_witness:
  "has_node (G (init [''M/A''])) ''A''
   \<and> shortest_path_length (G (init [''M/A''])) ''A'' = Inr [(''A'', 0), (''M'', 1)]
   \<and> average_number (init [''M/A'']) ''A'' = Inr ([1, 0, 0, 0, 0, 0, 0], 0)"
proof -
  have h: "has_node (G (init [''M/A''])) ''A''" by code_simp
  have i: "\<forall>x \<in> set (adj (G (init [''M/A''])) ''A''). \<forall>w \<in> set (adj (G (init [''M/A''])) x). w = ''A''"
    by code_simp
  have l: "shortest_path_length (G (init [''M/A''])) ''A'' = Inr [(''A'', 0), (''M'', 1)]"
    by code_simp
  have v: "halves (map snd (single_shortest_path_length (G (init [''M/A''])) [''A''])) = [0]"
    by code_simp
  have f: "hist (map real [0]) bins = [1, 0, 0, 0, 0, 0, 0]"
    unfolding hist_bins upt7 by simp
  have a: "average_number (init [''M/A'']) ''A'' = Inr ([1, 0, 0, 0, 0, 0, 0], 0)"
    using average_number_eq[OF h] unfolding v f by simp
  from average_number_includes_target [OF h] obtain fig mean where
    "average_number (init [''M/A'']) ''A'' = Inr (fig, mean)"
    "(\<forall>x \<in> set (adj (G (init [''M/A''])) ''A''). \<forall>w \<in> set (adj (G (init [''M/A''])) x). w = ''A'')
       \<longrightarrow> mean = 0"
    by blast
  with i a have "mean = 0" "fig = [1, 0, 0, 0, 0, 0, 0]" by simp_all
  with h l a show ?thesis by simp
qed

section \<open>What the histogram counts\<close>

lemma count_lengths:
  assumes d: "distinct (map fst out)" and s: "set out = (\<lambda>v. (v, \<delta> v)) ` V"
  shows "length (filter Q (map snd out)) = card {v \<in> V. Q (\<delta> v)}"
proof -
  have do: "distinct out" using d by (simp add: distinct_map)
  have "length (filter Q (map snd out)) = length (filter (Q \<circ> snd) out)"
    by (simp add: filter_map)
  also have "\<dots> = card (set (filter (Q \<circ> snd) out))"
    by (rule distinct_card[symmetric]) (use do in simp)
  also have "set (filter (Q \<circ> snd) out) = (\<lambda>v. (v, \<delta> v)) ` {v \<in> V. Q (\<delta> v)}"
    unfolding set_filter s by auto
  also have "card \<dots> = card {v \<in> V. Q (\<delta> v)}"
    by (rule card_image) (auto simp: inj_on_def)
  finally show ?thesis .
qed

lemma filter_halves:
  "length (filter (\<lambda>v. v < n) (halves ls)) = length (filter (\<lambda>l. l mod 2 = 0 \<and> l div 2 < n) ls)"
  unfolding halves_def by (induction ls) auto

text \<open>On a built graph a walk from a cast member ends in a movie title or a cast member.\<close>

lemma walk_end_kind:
  assumes B: "built mg" and w: "walk (G mg) p" and h: "hd p \<in> actor_names mg"
  shows "last p \<in> movie_titles mg \<union> actor_names mg"
proof (cases p rule: rev_cases)
  case Nil
  with w show ?thesis by simp
next
  case (snoc q v)
  show ?thesis
  proof (cases "q = []")
    case True
    with snoc h show ?thesis by simp
  next
    case False
    with w snoc have "v \<in> set (adj (G mg) (last q))" by (simp add: walk_snoc)
    with B have "v \<in> movie_titles mg \<or> v \<in> actor_names mg" unfolding built_def by blast
    with snoc show ?thesis by simp
  qed
qed

lemma even_distance_actors:
  assumes B: "built mg" and D: "movie_titles mg \<inter> actor_names mg = {}"
    and t: "t \<in> actor_names mg"
  shows "{v \<in> {v. reachable (G mg) t v}.
            distance (G mg) t v mod 2 = 0 \<and> distance (G mg) t v div 2 < 7}
         = {v \<in> actor_names mg. \<exists>p. walk (G mg) p \<and> hd p = t \<and> last p = v \<and> hops p \<le> 12}"
proof (intro set_eqI iffI)
  fix v assume "v \<in> {v \<in> {v. reachable (G mg) t v}.
            distance (G mg) t v mod 2 = 0 \<and> distance (G mg) t v div 2 < 7}"
  then have r: "reachable (G mg) t v" and e: "distance (G mg) t v mod 2 = 0"
    and s: "distance (G mg) t v div 2 < 7" by auto
  from distance_walk[OF r] obtain p where
    p: "walk (G mg) p" "hd p = t" "last p = v" "hops p = distance (G mg) t v" by blast
  from e s have le: "hops p \<le> 12" unfolding p(4) by presburger
  have tm: "hd p \<notin> movie_titles mg" using t D p(2) by auto
  from p(1) have ne: "p \<noteq> []" by (auto dest: walk_nonempty)
  from e p(4) have "even (hops p)" by presburger
  then have "odd (length p)" using ne by (cases p) (auto simp: hops_def)
  with walk_kinds[OF B D p(1)] tm have "last p \<notin> movie_titles mg" by simp
  moreover have "last p \<in> movie_titles mg \<union> actor_names mg"
    by (rule walk_end_kind[OF B p(1)]) (use t p(2) in simp)
  ultimately have "v \<in> actor_names mg" using p(3) by simp
  with p le show "v \<in> {v \<in> actor_names mg. \<exists>p. walk (G mg) p \<and> hd p = t \<and> last p = v \<and> hops p \<le> 12}"
    by blast
next
  fix v assume "v \<in> {v \<in> actor_names mg. \<exists>p. walk (G mg) p \<and> hd p = t \<and> last p = v \<and> hops p \<le> 12}"
  then obtain p where v: "v \<in> actor_names mg"
    and p: "walk (G mg) p" "hd p = t" "last p = v" "hops p \<le> 12" by blast
  have r: "reachable (G mg) t v" by (rule reachableI[OF p(1,2,3)])
  from distance_le[OF p(1,2,3)] p(4) have le: "distance (G mg) t v \<le> 12" by simp
  from distance_walk[OF r] obtain q where
    q: "walk (G mg) q" "hd q = t" "last q = v" "hops q = distance (G mg) t v" by blast
  have "hd q \<notin> movie_titles mg" "last q \<notin> movie_titles mg" using q(2,3) t v D by auto
  from walk_between_actors(1)[OF B D q(1) this] have "even (distance (G mg) t v)"
    unfolding q(4) .
  with le have "distance (G mg) t v mod 2 = 0 \<and> distance (G mg) t v div 2 < 7" by presburger
  with r show "v \<in> {v \<in> {v. reachable (G mg) t v}.
            distance (G mg) t v mod 2 = 0 \<and> distance (G mg) t v div 2 < 7}" by simp
qed

text \<open>
  Claim C4, as the code has it. In a graph made by the builder in which no
  cast member bears the name of a movie, and for a target that is an actor
  node, the figure has the seven buckets of the degrees 0 to 6, and the sum of
  the bucket counts is the number of actor nodes that a walk of at most 12 raw
  hops joins to the target, the target included.
\<close>

theorem histogram_total:
  assumes D: "movie_titles (init lines) \<inter> actor_names (init lines) = {}"
    and t: "target \<in> actor_names (init lines)"
  shows "\<exists>fig mean.
           average_number (init lines) target = Inr (fig, mean)
           \<and> length fig = 7
           \<and> sum_list fig =
               card {v \<in> actor_names (init lines).
                       \<exists>p. walk (G (init lines)) p \<and> hd p = target \<and> last p = v \<and> hops p \<le> 12}"
proof -
  let ?gr = "G (init lines)"
  let ?out = "single_shortest_path_length ?gr [target]"
  let ?vals = "halves (map snd ?out)"
  let ?fig = "hist (map real ?vals) bins"
  let ?mean = "real (sum_list ?vals) / real (length ?vals)"
  note C = single_shortest_path_length_correct[of ?gr target]
  from C have d: "distinct (map fst ?out)"
    and s: "set ?out = (\<lambda>v. (v, distance ?gr target v)) ` {v. reachable ?gr target v}"
    by auto
  have 1: "average_number (init lines) target = Inr (?fig, ?mean)"
    by (rule average_number_eq[OF actor_has_node[OF t]])
  have 2: "length ?fig = 7" unfolding hist_bins by simp
  have "sum_list ?fig = length (filter (\<lambda>l. l mod 2 = 0 \<and> l div 2 < 7) (map snd ?out))"
    unfolding sum_hist_bins filter_halves by (rule refl)
  also have "\<dots> = card {v \<in> {v. reachable ?gr target v}.
                        distance ?gr target v mod 2 = 0 \<and> distance ?gr target v div 2 < 7}"
    by (rule count_lengths[OF d s])
  also have "\<dots> = card {v \<in> actor_names (init lines).
                       \<exists>p. walk ?gr p \<and> hd p = target \<and> last p = v \<and> hops p \<le> 12}"
    unfolding even_distance_actors[OF built_init D t] by (rule refl)
  finally have 3: "sum_list ?fig = card {v \<in> actor_names (init lines).
                       \<exists>p. walk ?gr p \<and> hd p = target \<and> last p = v \<and> hops p \<le> 12}" .
  from 1 2 3 show ?thesis by blast
qed

theorem histogram_total_witness:
  "movie_titles (init [''Movie A/Alice/Bob'']) \<inter> actor_names (init [''Movie A/Alice/Bob'']) = {}
   \<and> ''Alice'' \<in> actor_names (init [''Movie A/Alice/Bob''])
   \<and> average_number (init [''Movie A/Alice/Bob'']) ''Alice'' = Inr ([1, 1, 0, 0, 0, 0, 0], 1 / 2)
   \<and> card {v \<in> actor_names (init [''Movie A/Alice/Bob'']).
             \<exists>p. walk (G (init [''Movie A/Alice/Bob''])) p \<and> hd p = ''Alice'' \<and> last p = v
                  \<and> hops p \<le> 12} = 2"
proof -
  have h1: "movie_titles (init [''Movie A/Alice/Bob''])
            \<inter> actor_names (init [''Movie A/Alice/Bob'']) = {}" by code_simp
  have h2: "''Alice'' \<in> actor_names (init [''Movie A/Alice/Bob''])" by code_simp
  have n: "has_node (G (init [''Movie A/Alice/Bob''])) ''Alice''" by code_simp
  have v: "halves (map snd (single_shortest_path_length (G (init [''Movie A/Alice/Bob''])) [''Alice'']))
           = [0, 1]" by code_simp
  have f: "hist (map real [0, 1]) bins = [1, 1, 0, 0, 0, 0, 0]"
    unfolding hist_bins upt7 by simp
  have a: "average_number (init [''Movie A/Alice/Bob'']) ''Alice'' = Inr ([1, 1, 0, 0, 0, 0, 0], 1 / 2)"
    using average_number_eq[OF n] unfolding v f by simp
  from histogram_total [OF h1 h2] obtain fig mean where
    r: "average_number (init [''Movie A/Alice/Bob'']) ''Alice'' = Inr (fig, mean)"
    and c: "sum_list fig = card {v \<in> actor_names (init [''Movie A/Alice/Bob'']).
             \<exists>p. walk (G (init [''Movie A/Alice/Bob''])) p \<and> hd p = ''Alice'' \<and> last p = v
                  \<and> hops p \<le> 12}"
    by blast
  from r a have "fig = [1, 1, 0, 0, 0, 0, 0]" by simp
  with c have "card {v \<in> actor_names (init [''Movie A/Alice/Bob'']).
             \<exists>p. walk (G (init [''Movie A/Alice/Bob''])) p \<and> hd p = ''Alice'' \<and> last p = v
                  \<and> hops p \<le> 12} = 2" by simp
  with h1 h2 a show ?thesis by simp
qed

text \<open>
  The claim as stated fails on a chain of eight actors: the last one is at
  degree 7 from the first, outside the seven buckets, so the bucket counts sum
  to 7 while 8 actor nodes are reachable.
\<close>

theorem histogram_total_counterexample:
  "shortest_path_length
     (G (init [''M1/A0/A1'', ''M2/A1/A2'', ''M3/A2/A3'', ''M4/A3/A4'', ''M5/A4/A5'',
               ''M6/A5/A6'', ''M7/A6/A7''])) ''A0''
     = Inr [(''A0'', 0), (''M1'', 1), (''A1'', 2), (''M2'', 3), (''A2'', 4), (''M3'', 5),
            (''A3'', 6), (''M4'', 7), (''A4'', 8), (''M5'', 9), (''A5'', 10), (''M6'', 11),
            (''A6'', 12), (''M7'', 13), (''A7'', 14)]
   \<and> actor_names (init [''M1/A0/A1'', ''M2/A1/A2'', ''M3/A2/A3'', ''M4/A3/A4'', ''M5/A4/A5'',
               ''M6/A5/A6'', ''M7/A6/A7''])
     = {''A0'', ''A1'', ''A2'', ''A3'', ''A4'', ''A5'', ''A6'', ''A7''}
   \<and> card (actor_names (init [''M1/A0/A1'', ''M2/A1/A2'', ''M3/A2/A3'', ''M4/A3/A4'',
               ''M5/A4/A5'', ''M6/A5/A6'', ''M7/A6/A7''])) = 8
   \<and> average_number (init [''M1/A0/A1'', ''M2/A1/A2'', ''M3/A2/A3'', ''M4/A3/A4'', ''M5/A4/A5'',
               ''M6/A5/A6'', ''M7/A6/A7'']) ''A0''
     = Inr ([1, 1, 1, 1, 1, 1, 1], 7 / 2)
   \<and> sum_list [1, 1, 1, 1, 1, 1, 1 :: nat] = 7"
proof -
  let ?g = "init [''M1/A0/A1'', ''M2/A1/A2'', ''M3/A2/A3'', ''M4/A3/A4'', ''M5/A4/A5'',
               ''M6/A5/A6'', ''M7/A6/A7'']"
  have l: "shortest_path_length (G ?g) ''A0''
     = Inr [(''A0'', 0), (''M1'', 1), (''A1'', 2), (''M2'', 3), (''A2'', 4), (''M3'', 5),
            (''A3'', 6), (''M4'', 7), (''A4'', 8), (''M5'', 9), (''A5'', 10), (''M6'', 11),
            (''A6'', 12), (''M7'', 13), (''A7'', 14)]" by code_simp
  have s: "actor_names ?g = {''A0'', ''A1'', ''A2'', ''A3'', ''A4'', ''A5'', ''A6'', ''A7''}"
    by code_simp
  have c: "card (actor_names ?g) = 8" by code_simp
  have n: "has_node (G ?g) ''A0''" by code_simp
  have v: "halves (map snd (single_shortest_path_length (G ?g) [''A0''])) = [0, 1, 2, 3, 4, 5, 6, 7]"
    by code_simp
  have f: "hist (map real [0, 1, 2, 3, 4, 5, 6, 7]) bins = [1, 1, 1, 1, 1, 1, 1]"
    unfolding hist_bins upt7 by simp
  have a: "average_number ?g ''A0'' = Inr ([1, 1, 1, 1, 1, 1, 1], 7 / 2)"
    using average_number_eq[OF n] unfolding v f by simp
  from l s c a show ?thesis by simp
qed

text \<open>The distance distribution of a node of the graph, in terms of distances.\<close>

lemma average_number_distances:
  assumes "has_node (G mg) t"
  shows "\<exists>all_paths values.
           shortest_path_length (G mg) t = Inr all_paths
           \<and> distinct (map fst all_paths)
           \<and> set all_paths = (\<lambda>v. (v, distance (G mg) t v)) ` {v. reachable (G mg) t v}
           \<and> values = map (\<lambda>l. l div 2) (filter (\<lambda>l. l mod 2 = 0) (map snd all_paths))
           \<and> average_number mg t =
                 Inr (map (\<lambda>k. length (filter (\<lambda>v. v = k) values)) [0..<7],
                      real (sum_list values) / real (length values))"
proof -
  let ?out = "single_shortest_path_length (G mg) [t]"
  let ?vals = "map (\<lambda>l. l div 2) (filter (\<lambda>l. l mod 2 = 0) (map snd ?out))"
  note C = single_shortest_path_length_correct[of "G mg" t]
  from C have 1: "distinct (map fst ?out)" by (rule conjunct1)
  from C have 2: "set ?out = (\<lambda>v. (v, distance (G mg) t v)) ` {v. reachable (G mg) t v}"
    by (rule conjunct2)
  have 3: "shortest_path_length (G mg) t = Inr ?out" by (rule shortest_path_length_eq[OF assms])
  have h: "halves (map snd ?out) = ?vals" by (simp add: halves_def)
  have 4: "average_number mg t =
             Inr (map (\<lambda>k. length (filter (\<lambda>v. v = k) ?vals)) [0..<7],
                  real (sum_list ?vals) / real (length ?vals))"
    using average_number_eq[OF assms] unfolding h hist_bins .
  from 1 2 3 4 show ?thesis by blast
qed

text \<open>
  Claim C10. Neither query looks at the kind of a node. For any two nodes of
  a built graph, movie titles included, the path query returns a walk with the
  least number of hops and its degree whenever a walk joins them. For each of
  the two nodes the distance distribution is computed from the dictionary that
  holds every node connected to it at its distance: the figure counts the
  halved even distances bucket by bucket, and the mean is their sum divided by
  their number.
\<close>

theorem queries_accept_every_node:
  assumes "has_node (G (init lines)) source" and "has_node (G (init lines)) target"
  shows "(reachable (G (init lines)) source target \<longrightarrow>
            (\<exists>path. path_to_actor (init lines) source target
                       = Some (Inr (path, int (length (filter (\<lambda>i. i \<notin> movie_titles (init lines))
                                                              path)) - 1))
                    \<and> walk (G (init lines)) path \<and> hd path = source \<and> last path = target
                    \<and> (\<forall>q. walk (G (init lines)) q \<longrightarrow> hd q = source \<longrightarrow> last q = target
                             \<longrightarrow> hops path \<le> hops q)))
         \<and> (\<forall>t \<in> {source, target}.
               \<exists>all_paths values.
                 shortest_path_length (G (init lines)) t = Inr all_paths
                 \<and> distinct (map fst all_paths)
                 \<and> set all_paths = (\<lambda>v. (v, distance (G (init lines)) t v))
                                      ` {v. reachable (G (init lines)) t v}
                 \<and> values = map (\<lambda>l. l div 2) (filter (\<lambda>l. l mod 2 = 0) (map snd all_paths))
                 \<and> average_number (init lines) t =
                       Inr (map (\<lambda>k. length (filter (\<lambda>v. v = k) values)) [0..<7],
                            real (sum_list values) / real (length values)))"
proof (intro conjI impI ballI)
  assume "reachable (G (init lines)) source target"
  from path_to_actor_reachable[OF assms this]
  show "\<exists>path. path_to_actor (init lines) source target
                       = Some (Inr (path, int (length (filter (\<lambda>i. i \<notin> movie_titles (init lines))
                                                              path)) - 1))
                    \<and> walk (G (init lines)) path \<and> hd path = source \<and> last path = target
                    \<and> (\<forall>q. walk (G (init lines)) q \<longrightarrow> hd q = source \<longrightarrow> last q = target
                             \<longrightarrow> hops path \<le> hops q)" .
next
  fix t assume "t \<in> {source, target}"
  then have "has_node (G (init lines)) t" using assms by auto
  then show "\<exists>all_paths values.
                 shortest_path_length (G (init lines)) t = Inr all_paths
                 \<and> distinct (map fst all_paths)
                 \<and> set all_paths = (\<lambda>v. (v, distance (G (init lines)) t v))
                                      ` {v. reachable (G (init lines)) t v}
                 \<and> values = map (\<lambda>l. l div 2) (filter (\<lambda>l. l mod 2 = 0) (map snd all_paths))
                 \<and> average_number (init lines) t =
                       Inr (map (\<lambda>k. length (filter (\<lambda>v. v = k) values)) [0..<7],
                            real (sum_list values) / real (length values))"
    by (rule average_number_distances)
qed

theorem queries_accept_every_node_witness:
  "''Movie A'' \<in> movie_titles (init [''Movie A/Alice/Bob''])
   \<and> has_node (G (init [''Movie A/Alice/Bob''])) ''Movie A''
   \<and> has_node (G (init [''Movie A/Alice/Bob''])) ''Alice''
   \<and> walk (G (init [''Movie A/Alice/Bob''])) [''Movie A'', ''Alice'']
   \<and> path_to_actor (init [''Movie A/Alice/Bob'']) ''Movie A'' ''Alice''
       = Some (Inr ([''Movie A'', ''Alice''], 0))
   \<and> shortest_path_length (G (init [''Movie A/Alice/Bob''])) ''Movie A''
       = Inr [(''Movie A'', 0), (''Alice'', 1), (''Bob'', 1)]
   \<and> average_number (init [''Movie A/Alice/Bob'']) ''Movie A'' = Inr ([1, 0, 0, 0, 0, 0, 0], 0)"
proof -
  have m: "''Movie A'' \<in> movie_titles (init [''Movie A/Alice/Bob''])" by code_simp
  have h1: "has_node (G (init [''Movie A/Alice/Bob''])) ''Movie A''" by code_simp
  have h2: "has_node (G (init [''Movie A/Alice/Bob''])) ''Alice''" by code_simp
  have w: "walk (G (init [''Movie A/Alice/Bob''])) [''Movie A'', ''Alice'']" by code_simp
  have r: "reachable (G (init [''Movie A/Alice/Bob''])) ''Movie A'' ''Alice''"
    by (rule reachableI[OF w]) simp_all
  have e: "path_to_actor (init [''Movie A/Alice/Bob'']) ''Movie A'' ''Alice''
       = Some (Inr ([''Movie A'', ''Alice''], 0))" by code_simp
  have l: "shortest_path_length (G (init [''Movie A/Alice/Bob''])) ''Movie A''
       = Inr [(''Movie A'', 0), (''Alice'', 1), (''Bob'', 1)]" by code_simp
  note T = queries_accept_every_node [OF h1 h2]
  from T[THEN conjunct2] have "\<exists>all_paths values.
         shortest_path_length (G (init [''Movie A/Alice/Bob''])) ''Movie A'' = Inr all_paths
         \<and> values = map (\<lambda>l. l div 2) (filter (\<lambda>l. l mod 2 = 0) (map snd all_paths))
         \<and> average_number (init [''Movie A/Alice/Bob'']) ''Movie A'' =
               Inr (map (\<lambda>k. length (filter (\<lambda>v. v = k) values)) [0..<7],
                    real (sum_list values) / real (length values))"
    by blast
  then obtain all_paths vs where
    ap: "shortest_path_length (G (init [''Movie A/Alice/Bob''])) ''Movie A'' = Inr all_paths"
    and vs: "vs = map (\<lambda>l. l div 2) (filter (\<lambda>l. l mod 2 = 0) (map snd all_paths))"
    and av: "average_number (init [''Movie A/Alice/Bob'']) ''Movie A'' =
               Inr (map (\<lambda>k. length (filter (\<lambda>v. v = k) vs)) [0..<7],
                    real (sum_list vs) / real (length vs))"
    by blast
  from ap l have "all_paths = [(''Movie A'', 0), (''Alice'', 1), (''Bob'', 1)]" by simp
  with vs have "vs = [0]" by simp
  with av have a: "average_number (init [''Movie A/Alice/Bob'']) ''Movie A''
                     = Inr ([1, 0, 0, 0, 0, 0, 0], 0)"
    unfolding upt7 by simp
  from m h1 h2 w e l a show ?thesis by simp
qed

end
